theory Spec2Isabelle
  imports Complex_Main
begin

section \<open>HFactor: the active kernel of the basis factorization\<close>

text \<open>
  A shallow embedding of the in-line kernel primitives of class \<open>HFactor\<close>
  (util/HFactor.h): \<open>colInsert\<close>, \<open>colFixMax\<close>, \<open>colDelete\<close>, \<open>rowInsert\<close>,
  \<open>rowDelete\<close> and the count-link lists \<open>clinkAdd\<close>, \<open>clinkDel\<close>, \<open>rlinkAdd\<close>,
  \<open>rlinkDel\<close>.

  Conventions of the embedding.
  \<^item> \<open>HighsInt\<close> is modelled by \<open>int\<close>. Its width is fixed by a build option. The
    primitives only add or subtract one or two from counts and indices that address
    positions in vectors; signed overflow is undefined behaviour in C++ and is not part of
    the model.
  \<^item> \<open>double\<close> is modelled by \<open>real\<close>: \<open>fabs\<close> is \<open>abs\<close>, \<open>max\<close> is \<open>max\<close>, products
    are exact. Rounding, infinities and NaN are not part of the model.
  \<^item> A \<open>std::vector\<close> is a list. \<open>operator[]\<close> outside the vector is undefined
    behaviour in C++; the model makes it the error value \<open>OutOfRange\<close>.
  \<^item> \<open>assert\<close> is modelled as compiled in (\<open>NDEBUG\<close> not defined): a failing
    assertion is the error value \<open>AssertionFailure\<close>.
  \<^item> Member functions take the object as an explicit argument and return the updated
    object, or an error.
\<close>

subsection \<open>Errors and vector access\<close>

datatype error = AssertionFailure | OutOfRange

definition in_range :: "'a list \<Rightarrow> int \<Rightarrow> bool" where
  "in_range xs i = (0 \<le> i \<and> i < int (length xs))"

subsection \<open>The object state\<close>

text \<open>
  The data members of \<open>HFactor\<close> that the in-line primitives read or write, followed by
  the factors L and U and the update buffer.
\<close>

record hfactor =
  pivot_threshold :: real
  pivot_tolerance :: real
  mc_start :: "int list"
  mc_count_a :: "int list"
  mc_index :: "int list"
  mc_value :: "real list"
  mc_min_pivot :: "real list"
  mr_start :: "int list"
  mr_count :: "int list"
  mr_index :: "int list"
  col_link_first :: "int list"
  col_link_next :: "int list"
  col_link_last :: "int list"
  row_link_first :: "int list"
  row_link_next :: "int list"
  row_link_last :: "int list"
  l_pivot_lookup :: "int list"
  l_pivot_index :: "int list"
  l_start :: "int list"
  l_index :: "int list"
  l_value :: "real list"
  u_pivot_lookup :: "int list"
  u_pivot_index :: "int list"
  u_pivot_value :: "real list"
  u_start :: "int list"
  u_index :: "int list"
  u_value :: "real list"
  pf_pivot_value :: "real list"
  pf_pivot_index :: "int list"
  pf_start :: "int list"
  pf_index :: "int list"
  pf_value :: "real list"

subsection \<open>Column and row primitives\<close>

text \<open>
  \<open>colInsert\<close>. The constant \<open>kHighsTiny\<close> is declared in lp_data/HConst.h and is a
  parameter here. The test of the value comes first, before any vector is touched.
\<close>

definition colInsert :: "real \<Rightarrow> hfactor \<Rightarrow> int \<Rightarrow> int \<Rightarrow> real \<Rightarrow> error + hfactor" where
  "colInsert kHighsTiny s iCol iRow v =
    (if \<bar>v\<bar> < kHighsTiny then Inl AssertionFailure
     else if \<not> (in_range (mc_start s) iCol \<and> in_range (mc_count_a s) iCol) then Inl OutOfRange
     else
       let iput = mc_start s ! nat iCol + mc_count_a s ! nat iCol in
       if \<not> (in_range (mc_index s) iput \<and> in_range (mc_value s) iput) then Inl OutOfRange
       else Inr (s\<lparr>mc_count_a := (mc_count_a s)[nat iCol := mc_count_a s ! nat iCol + 1],
                   mc_index := (mc_index s)[nat iput := iRow],
                   mc_value := (mc_value s)[nat iput := v]\<rparr>))"

text \<open>
  \<open>colFixMax\<close>. The \<open>for\<close> loop runs \<open>k\<close> from \<open>mc_start[iCol]\<close> while
  \<open>k < mc_start[iCol] + mc_count_a[iCol]\<close>, with \<open>max_value\<close> as the accumulator.
\<close>

function colFixMax_loop :: "real list \<Rightarrow> int \<Rightarrow> int \<Rightarrow> real \<Rightarrow> error + real" where
  "colFixMax_loop vals k kend max_value =
    (if k < kend then
       (if in_range vals k then colFixMax_loop vals (k + 1) kend (max max_value \<bar>vals ! nat k\<bar>)
        else Inl OutOfRange)
     else Inr max_value)"
  by pat_completeness auto
termination
  by (relation "measure (\<lambda>(vals, k, kend, max_value). nat (kend - k))") auto

definition colFixMax :: "hfactor \<Rightarrow> int \<Rightarrow> error + hfactor" where
  "colFixMax s iCol =
    (if \<not> (in_range (mc_start s) iCol \<and> in_range (mc_count_a s) iCol) then Inl OutOfRange
     else
       case colFixMax_loop (mc_value s) (mc_start s ! nat iCol)
              (mc_start s ! nat iCol + mc_count_a s ! nat iCol) 0 of
         Inl e \<Rightarrow> Inl e
       | Inr max_value \<Rightarrow>
           if \<not> in_range (mc_min_pivot s) iCol then Inl OutOfRange
           else Inr (s\<lparr>mc_min_pivot :=
                          (mc_min_pivot s)[nat iCol := max_value * pivot_threshold s]\<rparr>))"

text \<open>
  The scan \<open>while (index[idel] != target) idel++\<close> of \<open>colDelete\<close> and \<open>rowDelete\<close>. The
  source has no bound on \<open>idel\<close>: the scan ends at the first slot that holds the target, and
  reads outside the vector when there is none.
\<close>

function scan_for :: "int list \<Rightarrow> int \<Rightarrow> int \<Rightarrow> error + int" where
  "scan_for index target idel =
    (if \<not> in_range index idel then Inl OutOfRange
     else if index ! nat idel \<noteq> target then scan_for index target (idel + 1)
     else Inr idel)"
  by pat_completeness auto
termination
  by (relation "measure (\<lambda>(index, target, idel). nat (int (length index) - idel))")
     (auto simp: in_range_def)

text \<open>\<open>colDelete\<close> returns the value it removed together with the updated object.\<close>

definition colDelete :: "hfactor \<Rightarrow> int \<Rightarrow> int \<Rightarrow> error + (real \<times> hfactor)" where
  "colDelete s iCol iRow =
    (if \<not> (in_range (mc_start s) iCol \<and> in_range (mc_count_a s) iCol) then Inl OutOfRange
     else
       let count = mc_count_a s ! nat iCol - 1;
           imov = mc_start s ! nat iCol + count
       in case scan_for (mc_index s) iRow (mc_start s ! nat iCol) of
            Inl e \<Rightarrow> Inl e
          | Inr idel \<Rightarrow>
              if \<not> (in_range (mc_value s) idel \<and> in_range (mc_index s) imov \<and>
                     in_range (mc_value s) imov)
              then Inl OutOfRange
              else Inr (mc_value s ! nat idel,
                        s\<lparr>mc_count_a := (mc_count_a s)[nat iCol := count],
                          mc_index := (mc_index s)[nat idel := mc_index s ! nat imov],
                          mc_value := (mc_value s)[nat idel := mc_value s ! nat imov]\<rparr>))"

definition rowInsert :: "hfactor \<Rightarrow> int \<Rightarrow> int \<Rightarrow> error + hfactor" where
  "rowInsert s iCol iRow =
    (if \<not> (in_range (mr_start s) iRow \<and> in_range (mr_count s) iRow) then Inl OutOfRange
     else
       let iput = mr_start s ! nat iRow + mr_count s ! nat iRow in
       if \<not> in_range (mr_index s) iput then Inl OutOfRange
       else Inr (s\<lparr>mr_count := (mr_count s)[nat iRow := mr_count s ! nat iRow + 1],
                   mr_index := (mr_index s)[nat iput := iCol]\<rparr>))"

definition rowDelete :: "hfactor \<Rightarrow> int \<Rightarrow> int \<Rightarrow> error + hfactor" where
  "rowDelete s iCol iRow =
    (if \<not> (in_range (mr_start s) iRow \<and> in_range (mr_count s) iRow) then Inl OutOfRange
     else
       let count = mr_count s ! nat iRow - 1;
           imov = mr_start s ! nat iRow + count
       in case scan_for (mr_index s) iCol (mr_start s ! nat iRow) of
            Inl e \<Rightarrow> Inl e
          | Inr idel \<Rightarrow>
              if \<not> in_range (mr_index s) imov then Inl OutOfRange
              else Inr (s\<lparr>mr_count := (mr_count s)[nat iRow := count],
                          mr_index := (mr_index s)[nat idel := mr_index s ! nat imov]\<rparr>))"

subsection \<open>Count-link lists\<close>

text \<open>
  \<open>clinkAdd\<close>/\<open>clinkDel\<close> and \<open>rlinkAdd\<close>/\<open>rlinkDel\<close> have the same bodies, on the
  vectors \<open>col_link_*\<close> and \<open>row_link_*\<close>. The body is written once, on a triple
  \<open>(first, next, last)\<close>, and each member function applies it to its three vectors.
\<close>

type_synonym links = "int list \<times> int list \<times> int list"

definition linkAdd :: "links \<Rightarrow> int \<Rightarrow> int \<Rightarrow> error + links" where
  "linkAdd lk index count =
    (case lk of (link_first, link_next, link_last) \<Rightarrow>
      if \<not> (in_range link_first count \<and> in_range link_last index \<and> in_range link_next index)
      then Inl OutOfRange
      else
        let mover = link_first ! nat count;
            last1 = link_last[nat index := - 2 - count];
            next1 = link_next[nat index := mover];
            first1 = link_first[nat count := index]
        in if mover \<ge> 0 then
             (if \<not> in_range last1 mover then Inl OutOfRange
              else Inr (first1, next1, last1[nat mover := index]))
           else Inr (first1, next1, last1))"

definition linkDel :: "links \<Rightarrow> int \<Rightarrow> error + links" where
  "linkDel lk index =
    (case lk of (link_first, link_next, link_last) \<Rightarrow>
      if \<not> (in_range link_last index \<and> in_range link_next index) then Inl OutOfRange
      else
        let xlast = link_last ! nat index;
            xnext = link_next ! nat index
        in if xlast \<ge> 0 \<and> \<not> in_range link_next xlast then Inl OutOfRange
           else if xlast < 0 \<and> \<not> in_range link_first (- xlast - 2) then Inl OutOfRange
           else if xnext \<ge> 0 \<and> \<not> in_range link_last xnext then Inl OutOfRange
           else
             let next1 = (if xlast \<ge> 0 then link_next[nat xlast := xnext] else link_next);
                 first1 = (if xlast \<ge> 0 then link_first
                           else link_first[nat (- xlast - 2) := xnext]);
                 last1 = (if xnext \<ge> 0 then link_last[nat xnext := xlast] else link_last)
             in Inr (first1, next1, last1))"

definition col_links :: "hfactor \<Rightarrow> links" where
  "col_links s = (col_link_first s, col_link_next s, col_link_last s)"

definition row_links :: "hfactor \<Rightarrow> links" where
  "row_links s = (row_link_first s, row_link_next s, row_link_last s)"

definition set_col_links :: "hfactor \<Rightarrow> links \<Rightarrow> hfactor" where
  "set_col_links s lk =
    (case lk of (f, n, l) \<Rightarrow> s\<lparr>col_link_first := f, col_link_next := n, col_link_last := l\<rparr>)"

definition set_row_links :: "hfactor \<Rightarrow> links \<Rightarrow> hfactor" where
  "set_row_links s lk =
    (case lk of (f, n, l) \<Rightarrow> s\<lparr>row_link_first := f, row_link_next := n, row_link_last := l\<rparr>)"

definition clinkAdd :: "hfactor \<Rightarrow> int \<Rightarrow> int \<Rightarrow> error + hfactor" where
  "clinkAdd s index count = map_sum id (set_col_links s) (linkAdd (col_links s) index count)"

definition clinkDel :: "hfactor \<Rightarrow> int \<Rightarrow> error + hfactor" where
  "clinkDel s index = map_sum id (set_col_links s) (linkDel (col_links s) index)"

definition rlinkAdd :: "hfactor \<Rightarrow> int \<Rightarrow> int \<Rightarrow> error + hfactor" where
  "rlinkAdd s index count = map_sum id (set_row_links s) (linkAdd (row_links s) index count)"

definition rlinkDel :: "hfactor \<Rightarrow> int \<Rightarrow> error + hfactor" where
  "rlinkDel s index = map_sum id (set_row_links s) (linkDel (row_links s) index)"

subsection \<open>A concrete kernel\<close>

text \<open>
  A 3 by 3 kernel with spans of four slots: column 0 holds rows 0, 1, 2 (values 2, 1, 4),
  column 1 holds row 1 (value 3), column 2 holds rows 0 and 2 (values 5, 6); the entries
  of \<open>mc_min_pivot\<close> are stale. The column
  buckets hold one column each; the row bucket of count 2 holds the rows 2, 1, 0 in this
  order, as three calls \<open>rlinkAdd(0, 2)\<close>, \<open>rlinkAdd(1, 2)\<close>, \<open>rlinkAdd(2, 2)\<close> leave
  it. No pivot has been recorded yet and the update buffer is empty.
\<close>

definition kernel_example :: hfactor where
  "kernel_example =
    \<lparr>pivot_threshold = 1 / 10, pivot_tolerance = 1 / 10 ^ 10,
     mc_start = [0, 4, 8], mc_count_a = [3, 1, 2],
     mc_index = [0, 1, 2, 0, 1, 0, 0, 0, 0, 2, 0, 0],
     mc_value = [2, 1, 4, 0, 3, 0, 0, 0, 5, 6, 0, 0],
     mc_min_pivot = [1, 1, 1],
     mr_start = [0, 4, 8], mr_count = [2, 2, 2],
     mr_index = [0, 2, 0, 0, 0, 1, 0, 0, 0, 2, 0, 0],
     col_link_first = [- 1, 1, 2, 0], col_link_next = [- 1, - 1, - 1],
     col_link_last = [- 5, - 3, - 4],
     row_link_first = [- 1, - 1, 2, - 1], row_link_next = [- 1, 0, 1],
     row_link_last = [1, 2, - 4],
     l_pivot_lookup = [], l_pivot_index = [], l_start = [0], l_index = [], l_value = [],
     u_pivot_lookup = [], u_pivot_index = [], u_pivot_value = [],
     u_start = [], u_index = [], u_value = [],
     pf_pivot_value = [], pf_pivot_index = [], pf_start = [0], pf_index = [], pf_value = []\<rparr>"

subsection \<open>Live spans\<close>

text \<open>
  The live entries of column \<open>iCol\<close> are the slots from \<open>col_begin\<close> up to, and not
  including, \<open>col_end\<close>; \<open>col_last\<close> is the slot \<open>imov\<close> of \<open>colDelete\<close>.
  \<open>col_span_ok\<close> says that the column exists and its live span lies inside \<open>mc_index\<close>
  and \<open>mc_value\<close>. Likewise for rows.
\<close>

abbreviation col_begin :: "hfactor \<Rightarrow> int \<Rightarrow> int" where
  "col_begin s iCol \<equiv> mc_start s ! nat iCol"

abbreviation col_end :: "hfactor \<Rightarrow> int \<Rightarrow> int" where
  "col_end s iCol \<equiv> mc_start s ! nat iCol + mc_count_a s ! nat iCol"

abbreviation col_last :: "hfactor \<Rightarrow> int \<Rightarrow> int" where
  "col_last s iCol \<equiv> mc_start s ! nat iCol + (mc_count_a s ! nat iCol - 1)"

abbreviation row_last :: "hfactor \<Rightarrow> int \<Rightarrow> int" where
  "row_last s iRow \<equiv> mr_start s ! nat iRow + (mr_count s ! nat iRow - 1)"

abbreviation row_begin :: "hfactor \<Rightarrow> int \<Rightarrow> int" where
  "row_begin s iRow \<equiv> mr_start s ! nat iRow"

abbreviation row_end :: "hfactor \<Rightarrow> int \<Rightarrow> int" where
  "row_end s iRow \<equiv> mr_start s ! nat iRow + mr_count s ! nat iRow"

definition col_span_ok :: "hfactor \<Rightarrow> int \<Rightarrow> bool" where
  "col_span_ok s iCol =
    (in_range (mc_start s) iCol \<and> in_range (mc_count_a s) iCol \<and> 0 \<le> col_begin s iCol \<and>
     col_end s iCol \<le> int (length (mc_index s)) \<and> col_end s iCol \<le> int (length (mc_value s)))"

definition row_span_ok :: "hfactor \<Rightarrow> int \<Rightarrow> bool" where
  "row_span_ok s iRow =
    (in_range (mr_start s) iRow \<and> in_range (mr_count s) iRow \<and> 0 \<le> row_begin s iRow \<and>
     row_end s iRow \<le> int (length (mr_index s)))"

subsection \<open>Threshold pivoting\<close>

text \<open>
  \<open>col_max_abs\<close> is the largest magnitude among the live entries of a column, and 0
  for a column with no live entry.
\<close>

definition col_max_abs :: "hfactor \<Rightarrow> int \<Rightarrow> real" where
  "col_max_abs s iCol =
    (if col_begin s iCol < col_end s iCol
     then Max ((\<lambda>k. \<bar>mc_value s ! nat k\<bar>) ` {col_begin s iCol..<col_end s iCol})
     else 0)"

text \<open>
  Modelled from the spec: the threshold test of the pivot search. \<open>findPivotColSearch\<close>
  and \<open>findPivotRowSearch\<close> are declared in the header and their bodies are not among the
  sources. The spec (4.3, step 2) has: a candidate column j is acceptable if the entry
  (i, j) it proposes satisfies \<open>|v| \<ge> mc_min_pivot[j]\<close>.
\<close>

definition candidate_acceptable :: "hfactor \<Rightarrow> int \<Rightarrow> real \<Rightarrow> bool" where
  "candidate_acceptable s jCol v = (mc_min_pivot s ! nat jCol \<le> \<bar>v\<bar>)"

subsection \<open>Well-formed buckets\<close>

text \<open>
  The bucket of count \<open>count\<close> holds the chain \<open>xs\<close>, head first:
  \<open>link_first[count]\<close> is the head, \<open>link_next\<close> leads from each member to the next
  and is negative at the end, \<open>link_last\<close> leads back and is \<open>- 2 - count\<close> at the head.
  All members are distinct positions of \<open>link_next\<close> and \<open>link_last\<close>. An empty bucket has
  a negative \<open>link_first[count]\<close>.
\<close>

fun chain_ok :: "int list \<Rightarrow> int list \<Rightarrow> int \<Rightarrow> int list \<Rightarrow> int \<Rightarrow> bool" where
  "chain_ok link_next link_last prev [] cur = (cur < 0)"
| "chain_ok link_next link_last prev (x # xs) cur =
    (cur = x \<and> in_range link_next x \<and> in_range link_last x \<and> link_last ! nat x = prev \<and>
     chain_ok link_next link_last x xs (link_next ! nat x))"

definition bucket_chain :: "links \<Rightarrow> int \<Rightarrow> int list \<Rightarrow> bool" where
  "bucket_chain lk count xs =
    (case lk of (link_first, link_next, link_last) \<Rightarrow>
      in_range link_first count \<and> distinct xs \<and>
      chain_ok link_next link_last (- 2 - count) xs (link_first ! nat count))"

text \<open>
  \<open>linkDel_result\<close> is what \<open>linkDel\<close> returns when its accesses are inside the
  vectors. \<open>linkDel_accesses\<close> counts the vector accesses of one call of \<open>linkDel\<close>, read
  off the source: the reads of \<open>last[index]\<close> and \<open>next[index]\<close>, the write to
  \<open>next[xlast]\<close> or to \<open>first[-xlast - 2]\<close>, and the write to \<open>last[xnext]\<close> when
  \<open>xnext >= 0\<close>. The function has no loop.
\<close>

definition linkDel_result :: "links \<Rightarrow> int \<Rightarrow> links" where
  "linkDel_result lk i =
    (case lk of (f, n, l) \<Rightarrow>
      ((if l ! nat i \<ge> 0 then f else f[nat (- (l ! nat i) - 2) := n ! nat i]),
       (if l ! nat i \<ge> 0 then n[nat (l ! nat i) := n ! nat i] else n),
       (if n ! nat i \<ge> 0 then l[nat (n ! nat i) := l ! nat i] else l)))"

definition linkDel_accesses :: "links \<Rightarrow> int \<Rightarrow> nat" where
  "linkDel_accesses lk index =
    (case lk of (link_first, link_next, link_last) \<Rightarrow>
      2 + 1 + (if link_next ! nat index \<ge> 0 then 1 else 0))"

subsection \<open>Column view and row view\<close>

text \<open>
  \<open>col_has_live s iCol iRow\<close>: row \<open>iRow\<close> is among the live entries of column \<open>iCol\<close>,
  the precondition of \<open>colDelete\<close>; \<open>row_has_live\<close> is the precondition of \<open>rowDelete\<close>.
\<close>

definition col_has_live :: "hfactor \<Rightarrow> int \<Rightarrow> int \<Rightarrow> bool" where
  "col_has_live s iCol iRow =
    (col_span_ok s iCol \<and>
     (\<exists>k \<in> {col_begin s iCol..<col_end s iCol}. mc_index s ! nat k = iRow))"

definition row_has_live :: "hfactor \<Rightarrow> int \<Rightarrow> int \<Rightarrow> bool" where
  "row_has_live s iRow iCol =
    (row_span_ok s iRow \<and>
     (\<exists>k \<in> {row_begin s iRow..<row_end s iRow}. mr_index s ! nat k = iCol))"

text \<open>
  The number of live kernel entries, counted in the column view and in the row view: an
  entry is live when it sits in a live slot.
\<close>

definition num_live_col :: "hfactor \<Rightarrow> nat" where
  "num_live_col s =
    (\<Sum>j = 0..<length (mc_count_a s). card {col_begin s (int j)..<col_end s (int j)})"

definition num_live_row :: "hfactor \<Rightarrow> nat" where
  "num_live_row s =
    (\<Sum>i = 0..<length (mr_count s). card {row_begin s (int i)..<row_end s (int i)})"

text \<open>
  The counts are consistent when none is negative and the column counts and the row counts
  have the same sum.
\<close>

definition counts_consistent :: "hfactor \<Rightarrow> bool" where
  "counts_consistent s =
    (list_all (\<lambda>c. 0 \<le> c) (mc_count_a s) \<and> list_all (\<lambda>c. 0 \<le> c) (mr_count s) \<and>
     sum_list (mc_count_a s) = sum_list (mr_count s))"

text \<open>
  The states in which the kernel is quiescent: the state \<open>s0\<close> it starts from, and every
  state reached from a quiescent one by a matched pair \<open>colInsert(iCol, iRow, v)\<close>,
  \<open>rowInsert(iCol, iRow)\<close> or by a matched pair \<open>colDelete(iCol, iRow)\<close>,
  \<open>rowDelete(iCol, iRow)\<close> of an entry that is live in both views.
\<close>

inductive quiescent :: "real \<Rightarrow> hfactor \<Rightarrow> hfactor \<Rightarrow> bool" for kHighsTiny s0 where
  initial: "quiescent kHighsTiny s0 s0"
| insert_pair: "quiescent kHighsTiny s0 s \<Longrightarrow> colInsert kHighsTiny s iCol iRow v = Inr s1 \<Longrightarrow>
    rowInsert s1 iCol iRow = Inr s2 \<Longrightarrow> quiescent kHighsTiny s0 s2"
| delete_pair: "quiescent kHighsTiny s0 s \<Longrightarrow> col_has_live s iCol iRow \<Longrightarrow>
    row_has_live s iRow iCol \<Longrightarrow> colDelete s iCol iRow = Inr (v, s1) \<Longrightarrow>
    rowDelete s1 iCol iRow = Inr s2 \<Longrightarrow> quiescent kHighsTiny s0 s2"

section \<open>Member functions declared in the header\<close>

text \<open>
  The header declares \<open>setPivotThreshold\<close>, \<open>setMinAbsPivot\<close> and \<open>update\<close>; their
  bodies are in another file. The definitions of this section follow the
  specification of the engine, not code.
\<close>

text \<open>
  Modelled from the spec: \<open>setPivotThreshold\<close>, whose body is missing. The header gives
  \<open>bool setPivotThreshold(const double new_pivot_threshold)\<close>; the spec (6) has:
  accept value in (0, 0.5]; returns whether accepted. An accepted value becomes
  \<open>pivot_threshold\<close>.
\<close>

definition setPivotThreshold :: "hfactor \<Rightarrow> real \<Rightarrow> bool \<times> hfactor" where
  "setPivotThreshold s new_pivot_threshold =
    (if 0 < new_pivot_threshold \<and> new_pivot_threshold \<le> 1 / 2
     then (True, s\<lparr>pivot_threshold := new_pivot_threshold\<rparr>)
     else (False, s))"

text \<open>
  Modelled from the spec: \<open>setMinAbsPivot\<close>, whose body is missing. The header gives
  \<open>bool setMinAbsPivot(const double new_pivot_tolerance)\<close>; the spec (6) has the same
  sentence for it: accept value in (0, 0.5]; returns whether accepted. An accepted value
  becomes \<open>pivot_tolerance\<close>.
\<close>

definition setMinAbsPivot :: "hfactor \<Rightarrow> real \<Rightarrow> bool \<times> hfactor" where
  "setMinAbsPivot s new_pivot_tolerance =
    (if 0 < new_pivot_tolerance \<and> new_pivot_tolerance \<le> 1 / 2
     then (True, s\<lparr>pivot_tolerance := new_pivot_tolerance\<rparr>)
     else (False, s))"

text \<open>
  Modelled from the spec: \<open>update\<close>, whose body is missing, as are those of \<open>updateFT\<close>,
  \<open>updatePF\<close>, \<open>updateMPF\<close> and \<open>updateAPF\<close>. The header gives
  \<open>void update(HVector* aq, HVector* ep, HighsInt* iRow, HighsInt* hint)\<close>; the spec (4.6)
  has: pivot validity check \<open>|aq[iRow]| \<ge> pivot_tolerance\<close>; otherwise set hint to
  reinvert and skip the in-place modification. The vectors \<open>aq\<close> and \<open>ep\<close> are modelled by
  their dense arrays. The in-place modification, which depends on \<open>update_method\<close>, is the
  parameter \<open>incorporate\<close>: it returns the updated object and the hint. The hint value that
  means reinvert is the parameter \<open>reinvert\<close>.
\<close>

definition update ::
  "(hfactor \<Rightarrow> real list \<Rightarrow> real list \<Rightarrow> int \<Rightarrow> int \<Rightarrow> hfactor \<times> int) \<Rightarrow> int \<Rightarrow>
   hfactor \<Rightarrow> real list \<Rightarrow> real list \<Rightarrow> int \<Rightarrow> int \<Rightarrow> error + hfactor \<times> int" where
  "update incorporate reinvert s aq ep iRow hint =
    (if \<not> in_range aq iRow then Inl OutOfRange
     else if \<bar>aq ! nat iRow\<bar> < pivot_tolerance s then Inr (s, reinvert)
     else Inr (incorporate s aq ep iRow hint))"

section \<open>Properties\<close>

lemma in_range_nat: "in_range xs i \<Longrightarrow> nat i < length xs"
  by (simp add: in_range_def nat_less_iff)

text \<open>
  C9. \<open>colInsert\<close> of a value with \<open>|v| < kHighsTiny\<close> fails its assertion, whatever the
  indices are. For \<open>|v| \<ge> kHighsTiny\<close> and indices inside the vectors the assertion
  branch is not taken: the call succeeds, stores \<open>(iRow, v)\<close> at slot
  \<open>mc_start[iCol] + mc_count_a[iCol]\<close>, raises \<open>mc_count_a[iCol]\<close> by one and leaves
  every other count and every other slot as it was.
\<close>

theorem colInsert_tiny_or_append:
  "(\<bar>v\<bar> < kHighsTiny \<longrightarrow> colInsert kHighsTiny s iCol iRow v = Inl AssertionFailure) \<and>
   (kHighsTiny \<le> \<bar>v\<bar> \<longrightarrow> colInsert kHighsTiny s iCol iRow v \<noteq> Inl AssertionFailure) \<and>
   (kHighsTiny \<le> \<bar>v\<bar> \<and> in_range (mc_start s) iCol \<and> in_range (mc_count_a s) iCol \<and>
    in_range (mc_index s) (mc_start s ! nat iCol + mc_count_a s ! nat iCol) \<and>
    in_range (mc_value s) (mc_start s ! nat iCol + mc_count_a s ! nat iCol) \<longrightarrow>
    (\<exists>s'. colInsert kHighsTiny s iCol iRow v = Inr s' \<and>
       mc_index s' ! nat (mc_start s ! nat iCol + mc_count_a s ! nat iCol) = iRow \<and>
       mc_value s' ! nat (mc_start s ! nat iCol + mc_count_a s ! nat iCol) = v \<and>
       mc_count_a s' ! nat iCol = mc_count_a s ! nat iCol + 1 \<and>
       mc_count_a s' = (mc_count_a s)[nat iCol := mc_count_a s ! nat iCol + 1] \<and>
       mc_index s' = (mc_index s)[nat (mc_start s ! nat iCol + mc_count_a s ! nat iCol) := iRow] \<and>
       mc_value s' = (mc_value s)[nat (mc_start s ! nat iCol + mc_count_a s ! nat iCol) := v] \<and>
       mc_start s' = mc_start s))"
  by (auto simp: colInsert_def Let_def in_range_nat)

theorem colInsert_tiny_or_append_witness:
  "colInsert (1 / 10 ^ 14) kernel_example 1 2 (1 / 10 ^ 15) = Inl AssertionFailure \<and>
   colInsert (1 / 10 ^ 14) kernel_example 1 2 7 \<noteq> Inl AssertionFailure \<and>
   (\<exists>s'. colInsert (1 / 10 ^ 14) kernel_example 1 2 7 = Inr s' \<and>
      mc_index s' ! 5 = 2 \<and> mc_value s' ! 5 = 7 \<and> mc_count_a s' = [3, 2, 2] \<and>
      mc_index s' = [0, 1, 2, 0, 1, 2, 0, 0, 0, 2, 0, 0] \<and>
      mc_value s' = [2, 1, 4, 0, 3, 7, 0, 0, 5, 6, 0, 0])"
  using colInsert_tiny_or_append [of "1 / 10 ^ 15" "1 / 10 ^ 14" kernel_example 1 2]
    colInsert_tiny_or_append [of 7 "1 / 10 ^ 14" kernel_example 1 2]
  by (auto simp: kernel_example_def in_range_def numeral_nat)

subsection \<open>The scan of the delete primitives\<close>

declare scan_for.simps [simp del]

lemma scan_for_exists:
  "in_range xs k \<Longrightarrow> i \<le> k \<Longrightarrow> 0 \<le> i \<Longrightarrow> xs ! nat k = x \<Longrightarrow>
   \<exists>j. scan_for xs x i = Inr j \<and> j \<le> k"
proof (induction xs x i rule: scan_for.induct)
  case (1 index target idel)
  have r: "in_range index idel" using "1.prems" by (simp add: in_range_def)
  show ?case
  proof (cases "index ! nat idel = target")
    case True
    have "scan_for index target idel = Inr idel"
      using r True by (subst scan_for.simps) simp
    then show ?thesis using "1.prems"(2) by simp
  next
    case False
    then have lt: "idel + 1 \<le> k" using "1.prems" by (cases "idel = k") auto
    have "\<exists>j. scan_for index target (idel + 1) = Inr j \<and> j \<le> k"
      using "1.IH" [OF _ False "1.prems"(1) lt _ "1.prems"(4)] r "1.prems"(3) by simp
    moreover have "scan_for index target idel = scan_for index target (idel + 1)"
      using r False by (subst scan_for.simps) simp
    ultimately show ?thesis by simp
  qed
qed

lemma scan_for_result:
  "scan_for xs x i = Inr j \<Longrightarrow>
   i \<le> j \<and> in_range xs j \<and> xs ! nat j = x \<and> (\<forall>k. i \<le> k \<and> k < j \<longrightarrow> xs ! nat k \<noteq> x)"
proof (induction xs x i rule: scan_for.induct)
  case (1 index target idel)
  show ?case
  proof (cases "in_range index idel")
    case False
    then show ?thesis using "1.prems" by (subst (asm) scan_for.simps) simp
  next
    case r: True
    show ?thesis
    proof (cases "index ! nat idel = target")
      case True
      then have "j = idel" using "1.prems" r by (subst (asm) scan_for.simps) simp
      then show ?thesis using r True by simp
    next
      case False
      then have rec: "scan_for index target (idel + 1) = Inr j"
        using "1.prems" r by (subst (asm) scan_for.simps) simp
      have ih: "idel + 1 \<le> j \<and> in_range index j \<and> index ! nat j = target \<and>
        (\<forall>k. idel + 1 \<le> k \<and> k < j \<longrightarrow> index ! nat k \<noteq> target)"
        using "1.IH" [OF _ False rec] r by simp
      have "\<And>k. idel \<le> k \<Longrightarrow> k < j \<Longrightarrow> index ! nat k \<noteq> target"
      proof -
        fix k assume "idel \<le> k" "k < j"
        then show "index ! nat k \<noteq> target"
          using ih False by (cases "k = idel") auto
      qed
      then show ?thesis using ih by auto
    qed
  qed
qed

lemma scan_for_none:
  "\<forall>k. i \<le> k \<and> in_range xs k \<longrightarrow> xs ! nat k \<noteq> x \<Longrightarrow> scan_for xs x i = Inl OutOfRange"
proof (induction xs x i rule: scan_for.induct)
  case (1 index target idel)
  show ?case
  proof (cases "in_range index idel")
    case False
    then show ?thesis by (subst scan_for.simps) simp
  next
    case True
    then have ne: "index ! nat idel \<noteq> target" using 1 by auto
    have "scan_for index target (idel + 1) = Inl OutOfRange"
      using 1 True ne by (intro "1.IH") auto
    then show ?thesis using True ne by (subst scan_for.simps) simp
  qed
qed

lemma colDelete_present:
  assumes ok: "col_span_ok s iCol"
    and k: "col_begin s iCol \<le> k" "k < col_end s iCol" "mc_index s ! nat k = iRow"
  shows "\<exists>idel. colDelete s iCol iRow =
           Inr (mc_value s ! nat idel,
                s\<lparr>mc_count_a := (mc_count_a s)[nat iCol := mc_count_a s ! nat iCol - 1],
                  mc_index := (mc_index s)[nat idel := mc_index s ! nat (col_last s iCol)],
                  mc_value := (mc_value s)[nat idel := mc_value s ! nat (col_last s iCol)]\<rparr>) \<and>
           col_begin s iCol \<le> idel \<and> idel < col_end s iCol \<and> mc_index s ! nat idel = iRow \<and>
           (\<forall>j. col_begin s iCol \<le> j \<and> j < idel \<longrightarrow> mc_index s ! nat j \<noteq> iRow)"
proof -
  have "in_range (mc_index s) k" "0 \<le> col_begin s iCol"
    using ok k by (auto simp: col_span_ok_def in_range_def)
  from scan_for_exists [OF this(1) k(1) this(2) k(3)]
  obtain idel where sc: "scan_for (mc_index s) iRow (col_begin s iCol) = Inr idel"
    and le: "idel \<le> k" by blast
  have b: "col_begin s iCol \<le> idel" "mc_index s ! nat idel = iRow"
    and first: "\<forall>j. col_begin s iCol \<le> j \<and> j < idel \<longrightarrow> mc_index s ! nat j \<noteq> iRow"
    using scan_for_result [OF sc] by blast+
  have r1: "in_range (mc_index s) idel" "in_range (mc_value s) idel"
    using ok b le k by (auto simp: col_span_ok_def in_range_def)
  have r2: "in_range (mc_index s) (col_last s iCol)" "in_range (mc_value s) (col_last s iCol)"
    using ok k by (auto simp: col_span_ok_def in_range_def)
  have "colDelete s iCol iRow =
           Inr (mc_value s ! nat idel,
                s\<lparr>mc_count_a := (mc_count_a s)[nat iCol := mc_count_a s ! nat iCol - 1],
                  mc_index := (mc_index s)[nat idel := mc_index s ! nat (col_last s iCol)],
                  mc_value := (mc_value s)[nat idel := mc_value s ! nat (col_last s iCol)]\<rparr>)"
    using ok sc r1 r2 by (simp add: colDelete_def col_span_ok_def Let_def)
  moreover have "idel < col_end s iCol" using le k(2) by simp
  ultimately show ?thesis using b first by (intro exI [of _ idel]) simp
qed

lemma colDelete_absent:
  assumes live: "\<forall>k. col_begin s iCol \<le> k \<and> k < col_end s iCol \<longrightarrow> mc_index s ! nat k \<noteq> iRow"
    and res: "colDelete s iCol iRow = Inr (r, s')"
  shows "\<exists>idel. col_end s iCol \<le> idel \<and> in_range (mc_index s) idel \<and>
           mc_index s ! nat idel = iRow \<and> r = mc_value s ! nat idel"
proof -
  from res obtain idel where sc: "scan_for (mc_index s) iRow (col_begin s iCol) = Inr idel"
    and r: "r = mc_value s ! nat idel"
    by (auto simp: colDelete_def Let_def split: if_splits sum.splits)
  from scan_for_result [OF sc] live have "col_end s iCol \<le> idel"
    by (metis not_le_imp_less)
  then show ?thesis using scan_for_result [OF sc] r by auto
qed

lemma colDelete_nowhere:
  assumes "\<forall>k. col_begin s iCol \<le> k \<and> in_range (mc_index s) k \<longrightarrow> mc_index s ! nat k \<noteq> iRow"
  shows "colDelete s iCol iRow = Inl OutOfRange"
  using scan_for_none [of "col_begin s iCol" "mc_index s" iRow] assms
  by (simp add: colDelete_def Let_def)

lemma rowDelete_present:
  assumes ok: "row_span_ok s iRow"
    and k: "row_begin s iRow \<le> k" "k < row_end s iRow" "mr_index s ! nat k = iCol"
  shows "\<exists>idel. rowDelete s iCol iRow =
           Inr (s\<lparr>mr_count := (mr_count s)[nat iRow := mr_count s ! nat iRow - 1],
                  mr_index := (mr_index s)[nat idel := mr_index s ! nat (row_last s iRow)]\<rparr>) \<and>
           row_begin s iRow \<le> idel \<and> idel < row_end s iRow \<and> mr_index s ! nat idel = iCol \<and>
           (\<forall>j. row_begin s iRow \<le> j \<and> j < idel \<longrightarrow> mr_index s ! nat j \<noteq> iCol)"
proof -
  have "in_range (mr_index s) k" "0 \<le> row_begin s iRow"
    using ok k by (auto simp: row_span_ok_def in_range_def)
  from scan_for_exists [OF this(1) k(1) this(2) k(3)]
  obtain idel where sc: "scan_for (mr_index s) iCol (row_begin s iRow) = Inr idel"
    and le: "idel \<le> k" by blast
  have b: "row_begin s iRow \<le> idel" "mr_index s ! nat idel = iCol"
    and first: "\<forall>j. row_begin s iRow \<le> j \<and> j < idel \<longrightarrow> mr_index s ! nat j \<noteq> iCol"
    using scan_for_result [OF sc] by blast+
  have r2: "in_range (mr_index s) (row_last s iRow)"
    using ok k by (auto simp: row_span_ok_def in_range_def)
  have "rowDelete s iCol iRow =
           Inr (s\<lparr>mr_count := (mr_count s)[nat iRow := mr_count s ! nat iRow - 1],
                  mr_index := (mr_index s)[nat idel := mr_index s ! nat (row_last s iRow)]\<rparr>)"
    using ok sc r2 by (simp add: rowDelete_def row_span_ok_def Let_def)
  moreover have "idel < row_end s iRow" using le k(2) by simp
  ultimately show ?thesis using b first by (intro exI [of _ idel]) simp
qed

lemma rowDelete_absent:
  assumes live: "\<forall>k. row_begin s iRow \<le> k \<and> k < row_end s iRow \<longrightarrow> mr_index s ! nat k \<noteq> iCol"
    and res: "rowDelete s iCol iRow = Inr s'"
  shows "\<exists>idel. row_end s iRow \<le> idel \<and> in_range (mr_index s) idel \<and>
           mr_index s ! nat idel = iCol"
proof -
  from res obtain idel where sc: "scan_for (mr_index s) iCol (row_begin s iRow) = Inr idel"
    by (auto simp: rowDelete_def Let_def split: if_splits sum.splits)
  from scan_for_result [OF sc] live have "row_end s iRow \<le> idel"
    by (metis not_le_imp_less)
  then show ?thesis using scan_for_result [OF sc] by auto
qed

lemma rowDelete_nowhere:
  assumes "\<forall>k. row_begin s iRow \<le> k \<and> in_range (mr_index s) k \<longrightarrow> mr_index s ! nat k \<noteq> iCol"
  shows "rowDelete s iCol iRow = Inl OutOfRange"
  using scan_for_none [of "row_begin s iRow" "mr_index s" iCol] assms
  by (simp add: rowDelete_def Let_def)

text \<open>
  C10. \<open>colDelete(iCol, iRow)\<close> needs \<open>iRow\<close> among the live entries of column
  \<open>iCol\<close>. Then the scan stops at the first live slot \<open>idel\<close> that holds \<open>iRow\<close>, the
  call returns the value stored there, lowers \<open>mc_count_a[iCol]\<close> by one and copies the
  last live entry (slot \<open>col_last\<close>) over slot \<open>idel\<close>, so the order of the entries
  changes. Without the precondition the scan leaves the live span: a call that returns has
  found \<open>iRow\<close> in a slot at or after \<open>col_end\<close>, and when no slot from \<open>col_begin\<close>
  on holds \<open>iRow\<close> the scan reads outside the vector. \<open>rowDelete\<close> behaves in the same
  way on \<open>mr_index\<close> and \<open>mr_count\<close>.
\<close>

theorem colDelete_rowDelete_precondition:
  "(col_span_ok s iCol \<and> col_begin s iCol \<le> k \<and> k < col_end s iCol \<and> mc_index s ! nat k = iRow \<longrightarrow>
      (\<exists>idel. colDelete s iCol iRow =
           Inr (mc_value s ! nat idel,
                s\<lparr>mc_count_a := (mc_count_a s)[nat iCol := mc_count_a s ! nat iCol - 1],
                  mc_index := (mc_index s)[nat idel := mc_index s ! nat (col_last s iCol)],
                  mc_value := (mc_value s)[nat idel := mc_value s ! nat (col_last s iCol)]\<rparr>) \<and>
           col_begin s iCol \<le> idel \<and> idel < col_end s iCol \<and> mc_index s ! nat idel = iRow \<and>
           (\<forall>j. col_begin s iCol \<le> j \<and> j < idel \<longrightarrow> mc_index s ! nat j \<noteq> iRow))) \<and>
   ((\<forall>j. col_begin s iCol \<le> j \<and> j < col_end s iCol \<longrightarrow> mc_index s ! nat j \<noteq> iRow) \<and>
    colDelete s iCol iRow = Inr (r, s') \<longrightarrow>
      (\<exists>idel. col_end s iCol \<le> idel \<and> in_range (mc_index s) idel \<and>
           mc_index s ! nat idel = iRow \<and> r = mc_value s ! nat idel)) \<and>
   ((\<forall>j. col_begin s iCol \<le> j \<and> in_range (mc_index s) j \<longrightarrow> mc_index s ! nat j \<noteq> iRow) \<longrightarrow>
      colDelete s iCol iRow = Inl OutOfRange) \<and>
   (row_span_ok s iRow \<and> row_begin s iRow \<le> m \<and> m < row_end s iRow \<and> mr_index s ! nat m = iCol \<longrightarrow>
      (\<exists>idel. rowDelete s iCol iRow =
           Inr (s\<lparr>mr_count := (mr_count s)[nat iRow := mr_count s ! nat iRow - 1],
                  mr_index := (mr_index s)[nat idel := mr_index s ! nat (row_last s iRow)]\<rparr>) \<and>
           row_begin s iRow \<le> idel \<and> idel < row_end s iRow \<and> mr_index s ! nat idel = iCol \<and>
           (\<forall>j. row_begin s iRow \<le> j \<and> j < idel \<longrightarrow> mr_index s ! nat j \<noteq> iCol))) \<and>
   ((\<forall>j. row_begin s iRow \<le> j \<and> j < row_end s iRow \<longrightarrow> mr_index s ! nat j \<noteq> iCol) \<and>
    rowDelete s iCol iRow = Inr s'' \<longrightarrow>
      (\<exists>idel. row_end s iRow \<le> idel \<and> in_range (mr_index s) idel \<and> mr_index s ! nat idel = iCol)) \<and>
   ((\<forall>j. row_begin s iRow \<le> j \<and> in_range (mr_index s) j \<longrightarrow> mr_index s ! nat j \<noteq> iCol) \<longrightarrow>
      rowDelete s iCol iRow = Inl OutOfRange)"
  using colDelete_present [of s iCol k iRow] colDelete_absent [of s iCol iRow r s']
    colDelete_nowhere [of s iCol iRow] rowDelete_present [of s iRow m iCol]
    rowDelete_absent [of s iRow iCol s''] rowDelete_nowhere [of s iRow iCol]
  by blast


theorem colDelete_rowDelete_precondition_witness:
  "col_span_ok kernel_example 0 \<and> mc_index kernel_example ! nat 0 = 0 \<and>
   (\<exists>idel. col_begin kernel_example 0 \<le> idel \<and> idel < col_end kernel_example 0 \<and>
      mc_index kernel_example ! nat idel = 0) \<and>
   colDelete kernel_example 0 0 =
     Inr (2, kernel_example\<lparr>mc_count_a := [2, 1, 2],
               mc_index := [2, 1, 2, 0, 1, 0, 0, 0, 0, 2, 0, 0],
               mc_value := [4, 1, 4, 0, 3, 0, 0, 0, 5, 6, 0, 0]\<rparr>) \<and>
   colDelete kernel_example 1 0 =
     Inr (0, kernel_example\<lparr>mc_count_a := [3, 0, 2],
               mc_index := [0, 1, 2, 0, 1, 1, 0, 0, 0, 2, 0, 0],
               mc_value := [2, 1, 4, 0, 3, 3, 0, 0, 5, 6, 0, 0]\<rparr>) \<and>
   (\<exists>idel. col_end kernel_example 1 \<le> idel \<and> mc_index kernel_example ! nat idel = 0) \<and>
   colDelete kernel_example 2 7 = Inl OutOfRange \<and>
   row_span_ok kernel_example 0 \<and> mr_index kernel_example ! nat 0 = 0 \<and>
   (\<exists>idel. row_begin kernel_example 0 \<le> idel \<and> idel < row_end kernel_example 0 \<and>
      mr_index kernel_example ! nat idel = 0) \<and>
   rowDelete kernel_example 0 0 =
     Inr (kernel_example\<lparr>mr_count := [1, 2, 2],
            mr_index := [2, 2, 0, 0, 0, 1, 0, 0, 0, 2, 0, 0]\<rparr>) \<and>
   rowDelete kernel_example 1 0 =
     Inr (kernel_example\<lparr>mr_count := [1, 2, 2],
            mr_index := [0, 2, 0, 0, 0, 2, 0, 0, 0, 2, 0, 0]\<rparr>) \<and>
   (\<exists>idel. row_end kernel_example 0 \<le> idel \<and> mr_index kernel_example ! nat idel = 1) \<and>
   rowDelete kernel_example 7 2 = Inl OutOfRange"
proof -
  have c1: "col_span_ok kernel_example 0 \<and> col_begin kernel_example 0 \<le> 0 \<and>
      0 < col_end kernel_example 0 \<and> mc_index kernel_example ! nat 0 = 0"
    by (simp add: col_span_ok_def kernel_example_def in_range_def)
  have r1: "row_span_ok kernel_example 0 \<and> row_begin kernel_example 0 \<le> 0 \<and>
      0 < row_end kernel_example 0 \<and> mr_index kernel_example ! nat 0 = 0"
    by (simp add: row_span_ok_def kernel_example_def in_range_def)
  have c2: "\<forall>j. col_begin kernel_example 1 \<le> j \<and> j < col_end kernel_example 1 \<longrightarrow>
      mc_index kernel_example ! nat j \<noteq> 0"
  proof (intro allI impI)
    fix j :: int
    assume "col_begin kernel_example 1 \<le> j \<and> j < col_end kernel_example 1"
    then have "j = 4" by (simp add: kernel_example_def)
    then show "mc_index kernel_example ! nat j \<noteq> 0"
      by (simp add: kernel_example_def numeral_nat)
  qed
  have r2: "\<forall>j. row_begin kernel_example 0 \<le> j \<and> j < row_end kernel_example 0 \<longrightarrow>
      mr_index kernel_example ! nat j \<noteq> 1"
  proof (intro allI impI)
    fix j :: int
    assume "row_begin kernel_example 0 \<le> j \<and> j < row_end kernel_example 0"
    then have "j = 0 \<or> j = 1" by (auto simp: kernel_example_def)
    then show "mr_index kernel_example ! nat j \<noteq> 1"
      by (auto simp: kernel_example_def)
  qed
  have c3: "\<forall>j. col_begin kernel_example 2 \<le> j \<and> in_range (mc_index kernel_example) j \<longrightarrow>
      mc_index kernel_example ! nat j \<noteq> 7"
  proof (intro allI impI)
    fix j :: int
    assume "col_begin kernel_example 2 \<le> j \<and> in_range (mc_index kernel_example) j"
    then have "j = 8 \<or> j = 9 \<or> j = 10 \<or> j = 11"
      by (auto simp: kernel_example_def in_range_def numeral_nat)
    then show "mc_index kernel_example ! nat j \<noteq> 7"
      by (auto simp: kernel_example_def numeral_nat)
  qed
  have r3: "\<forall>j. row_begin kernel_example 2 \<le> j \<and> in_range (mr_index kernel_example) j \<longrightarrow>
      mr_index kernel_example ! nat j \<noteq> 7"
  proof (intro allI impI)
    fix j :: int
    assume "row_begin kernel_example 2 \<le> j \<and> in_range (mr_index kernel_example) j"
    then have "j = 8 \<or> j = 9 \<or> j = 10 \<or> j = 11"
      by (auto simp: kernel_example_def in_range_def numeral_nat)
    then show "mr_index kernel_example ! nat j \<noteq> 7"
      by (auto simp: kernel_example_def numeral_nat)
  qed
  have e1: "colDelete kernel_example 0 0 =
     Inr (2, kernel_example\<lparr>mc_count_a := [2, 1, 2],
               mc_index := [2, 1, 2, 0, 1, 0, 0, 0, 0, 2, 0, 0],
               mc_value := [4, 1, 4, 0, 3, 0, 0, 0, 5, 6, 0, 0]\<rparr>)"
    by code_simp
  have e2: "colDelete kernel_example 1 0 =
     Inr (0, kernel_example\<lparr>mc_count_a := [3, 0, 2],
               mc_index := [0, 1, 2, 0, 1, 1, 0, 0, 0, 2, 0, 0],
               mc_value := [2, 1, 4, 0, 3, 3, 0, 0, 5, 6, 0, 0]\<rparr>)"
    by code_simp
  have e3: "rowDelete kernel_example 0 0 =
     Inr (kernel_example\<lparr>mr_count := [1, 2, 2],
            mr_index := [2, 2, 0, 0, 0, 1, 0, 0, 0, 2, 0, 0]\<rparr>)"
    by code_simp
  have e4: "rowDelete kernel_example 1 0 =
     Inr (kernel_example\<lparr>mr_count := [1, 2, 2],
            mr_index := [0, 2, 0, 0, 0, 2, 0, 0, 0, 2, 0, 0]\<rparr>)"
    by code_simp
  note T = colDelete_rowDelete_precondition
  have a1: "\<exists>idel. col_begin kernel_example 0 \<le> idel \<and> idel < col_end kernel_example 0 \<and>
      mc_index kernel_example ! nat idel = 0"
    using T [where s = kernel_example and iCol = 0 and iRow = 0 and k = 0,
        THEN conjunct1, THEN mp, OF c1]
    by blast
  have b1: "\<exists>idel. row_begin kernel_example 0 \<le> idel \<and> idel < row_end kernel_example 0 \<and>
      mr_index kernel_example ! nat idel = 0"
    using T [where s = kernel_example and iCol = 0 and iRow = 0 and m = 0,
        THEN conjunct2, THEN conjunct2, THEN conjunct2, THEN conjunct1, THEN mp, OF r1]
    by blast
  have a2: "\<exists>idel. col_end kernel_example 1 \<le> idel \<and> mc_index kernel_example ! nat idel = 0"
    using T [where s = kernel_example and iCol = 1 and iRow = 0,
        THEN conjunct2, THEN conjunct1, THEN mp, OF conjI [OF c2 e2]]
    by auto
  have a3: "colDelete kernel_example 2 7 = Inl OutOfRange"
    using T [where s = kernel_example and iCol = 2 and iRow = 7,
        THEN conjunct2, THEN conjunct2, THEN conjunct1] c3
    by simp
  have b2: "\<exists>idel. row_end kernel_example 0 \<le> idel \<and> mr_index kernel_example ! nat idel = 1"
    using T [where s = kernel_example and iCol = 1 and iRow = 0,
        THEN conjunct2, THEN conjunct2, THEN conjunct2, THEN conjunct2, THEN conjunct1,
        THEN mp, OF conjI [OF r2 e4]]
    by auto
  have b3: "rowDelete kernel_example 7 2 = Inl OutOfRange"
    using T [where s = kernel_example and iCol = 7 and iRow = 2,
        THEN conjunct2, THEN conjunct2, THEN conjunct2, THEN conjunct2, THEN conjunct2] r3
    by simp
  show ?thesis
    using c1 r1 e1 e2 e3 e4 a1 b1 a2 a3 b2 b3 by simp
qed

subsection \<open>The pivot threshold of a column\<close>

declare colFixMax_loop.simps [simp del]

lemma colFixMax_loop_Max:
  "0 \<le> k \<Longrightarrow> kend \<le> int (length vals) \<Longrightarrow>
   colFixMax_loop vals k kend m = Inr (Max (insert m ((\<lambda>j. \<bar>vals ! nat j\<bar>) ` {k..<kend})))"
proof (induction vals k kend m rule: colFixMax_loop.induct)
  case (1 vals k kend m)
  show ?case
  proof (cases "k < kend")
    case False
    then show ?thesis by (subst colFixMax_loop.simps) simp
  next
    case True
    then have r: "in_range vals k" using "1.prems" by (simp add: in_range_def)
    have split: "{k..<kend} = insert k {k + 1..<kend}" using True by auto
    have "colFixMax_loop vals k kend m = colFixMax_loop vals (k + 1) kend (max m \<bar>vals ! nat k\<bar>)"
      using True r by (subst colFixMax_loop.simps) simp
    also have "\<dots> = Inr (Max (insert (max m \<bar>vals ! nat k\<bar>)
        ((\<lambda>j. \<bar>vals ! nat j\<bar>) ` {k + 1..<kend})))"
      using "1.IH" [OF True r] "1.prems" by simp
    also have "Max (insert (max m \<bar>vals ! nat k\<bar>) ((\<lambda>j. \<bar>vals ! nat j\<bar>) ` {k + 1..<kend})) =
        Max (insert m ((\<lambda>j. \<bar>vals ! nat j\<bar>) ` {k..<kend}))"
    proof (cases "{k + 1..<kend} = {}")
      case True
      then show ?thesis unfolding split by (simp add: max.commute)
    next
      case False
      then show ?thesis unfolding split by (simp add: max.assoc)
    qed
    finally show ?thesis .
  qed
qed

lemma Max_insert_zero_abs:
  fixes f :: "int \<Rightarrow> real"
  assumes "a < b" "\<forall>j. 0 \<le> f j"
  shows "Max (insert 0 (f ` {a..<b})) = Max (f ` {a..<b})"
proof -
  have ne: "f ` {a..<b} \<noteq> {}" using assms(1) by simp
  have "0 \<le> Max (f ` {a..<b})"
    using assms ne by (meson Max_ge_iff finite_atLeastLessThan_int finite_imageI imageI atLeastLessThan_iff order_refl)
  then show ?thesis using ne by (simp add: max_def)
qed

lemma colFixMax_result:
  assumes ok: "col_span_ok s iCol" and r: "in_range (mc_min_pivot s) iCol"
  shows "colFixMax s iCol =
    Inr (s\<lparr>mc_min_pivot := (mc_min_pivot s)[nat iCol := col_max_abs s iCol * pivot_threshold s]\<rparr>)"
proof -
  have loop: "colFixMax_loop (mc_value s) (col_begin s iCol) (col_end s iCol) 0 =
      Inr (Max (insert 0 ((\<lambda>k. \<bar>mc_value s ! nat k\<bar>) ` {col_begin s iCol..<col_end s iCol})))"
    using ok by (intro colFixMax_loop_Max) (simp_all add: col_span_ok_def)
  have "Max (insert 0 ((\<lambda>k. \<bar>mc_value s ! nat k\<bar>) ` {col_begin s iCol..<col_end s iCol})) =
      col_max_abs s iCol"
  proof (cases "col_begin s iCol < col_end s iCol")
    case True
    then show ?thesis
      using Max_insert_zero_abs [of "col_begin s iCol" "col_end s iCol" "\<lambda>k. \<bar>mc_value s ! nat k\<bar>"]
      by (simp add: col_max_abs_def)
  next
    case False
    then show ?thesis by (simp add: col_max_abs_def)
  qed
  then show ?thesis using loop ok r by (simp add: colFixMax_def col_span_ok_def)
qed

text \<open>
  C4. For a column whose live span lies inside the vectors, \<open>colFixMax\<close> succeeds and
  changes only \<open>mc_min_pivot[iCol]\<close>, which becomes \<open>pivot_threshold\<close> times the largest
  \<open>|mc_value[k]|\<close> over the live slots \<open>mc_start[iCol] .. mc_start[iCol] + mc_count_a[iCol] - 1\<close>,
  and 0 when the column has no live entry. A candidate of column \<open>iCol\<close> with value \<open>v\<close>
  passes the threshold test exactly when \<open>|v|\<close> is at least this bound; in particular
  only if \<open>|v| \<ge> mc_min_pivot[iCol]\<close>.
\<close>

theorem colFixMax_min_pivot:
  "col_span_ok s iCol \<and> in_range (mc_min_pivot s) iCol \<longrightarrow>
   (\<exists>s'. colFixMax s iCol = Inr s' \<and>
      s' = s\<lparr>mc_min_pivot :=
                (mc_min_pivot s)[nat iCol := pivot_threshold s * col_max_abs s iCol]\<rparr> \<and>
      mc_min_pivot s' ! nat iCol = pivot_threshold s * col_max_abs s iCol \<and>
      (mc_count_a s ! nat iCol \<le> 0 \<longrightarrow> mc_min_pivot s' ! nat iCol = 0) \<and>
      (0 < mc_count_a s ! nat iCol \<longrightarrow>
         mc_min_pivot s' ! nat iCol =
           pivot_threshold s *
             Max ((\<lambda>k. \<bar>mc_value s ! nat k\<bar>) ` {col_begin s iCol..<col_end s iCol})) \<and>
      (\<forall>v. candidate_acceptable s' iCol v \<longleftrightarrow> pivot_threshold s * col_max_abs s iCol \<le> \<bar>v\<bar>) \<and>
      (\<forall>v. candidate_acceptable s' iCol v \<longrightarrow> mc_min_pivot s' ! nat iCol \<le> \<bar>v\<bar>))"
proof (intro impI)
  assume a: "col_span_ok s iCol \<and> in_range (mc_min_pivot s) iCol"
  then have n: "nat iCol < length (mc_min_pivot s)" by (simp add: in_range_nat)
  have res: "colFixMax s iCol =
    Inr (s\<lparr>mc_min_pivot := (mc_min_pivot s)[nat iCol := pivot_threshold s * col_max_abs s iCol]\<rparr>)"
    using colFixMax_result [of s iCol] a by (simp add: mult.commute)
  show "\<exists>s'. colFixMax s iCol = Inr s' \<and>
      s' = s\<lparr>mc_min_pivot :=
                (mc_min_pivot s)[nat iCol := pivot_threshold s * col_max_abs s iCol]\<rparr> \<and>
      mc_min_pivot s' ! nat iCol = pivot_threshold s * col_max_abs s iCol \<and>
      (mc_count_a s ! nat iCol \<le> 0 \<longrightarrow> mc_min_pivot s' ! nat iCol = 0) \<and>
      (0 < mc_count_a s ! nat iCol \<longrightarrow>
         mc_min_pivot s' ! nat iCol =
           pivot_threshold s *
             Max ((\<lambda>k. \<bar>mc_value s ! nat k\<bar>) ` {col_begin s iCol..<col_end s iCol})) \<and>
      (\<forall>v. candidate_acceptable s' iCol v \<longleftrightarrow> pivot_threshold s * col_max_abs s iCol \<le> \<bar>v\<bar>) \<and>
      (\<forall>v. candidate_acceptable s' iCol v \<longrightarrow> mc_min_pivot s' ! nat iCol \<le> \<bar>v\<bar>)"
    unfolding res using n by (simp add: candidate_acceptable_def col_max_abs_def)
qed


theorem colFixMax_min_pivot_witness:
  "col_span_ok kernel_example 0 \<and> in_range (mc_min_pivot kernel_example) 0 \<and>
   colFixMax kernel_example 0 = Inr (kernel_example\<lparr>mc_min_pivot := [2 / 5, 1, 1]\<rparr>) \<and>
   candidate_acceptable (kernel_example\<lparr>mc_min_pivot := [2 / 5, 1, 1]\<rparr>) 0 1 \<and>
   \<not> candidate_acceptable (kernel_example\<lparr>mc_min_pivot := [2 / 5, 1, 1]\<rparr>) 0 (3 / 10) \<and>
   colFixMax (kernel_example\<lparr>mc_count_a := [3, 0, 2]\<rparr>) 1 =
     Inr (kernel_example\<lparr>mc_count_a := [3, 0, 2], mc_min_pivot := [1, 0, 1]\<rparr>)"
proof -
  have h: "col_span_ok kernel_example 0 \<and> in_range (mc_min_pivot kernel_example) 0"
    by (simp add: col_span_ok_def kernel_example_def in_range_def)
  have h': "col_span_ok (kernel_example\<lparr>mc_count_a := [3, 0, 2]\<rparr>) 1 \<and>
      in_range (mc_min_pivot (kernel_example\<lparr>mc_count_a := [3, 0, 2]\<rparr>)) 1"
    by (simp add: col_span_ok_def kernel_example_def in_range_def)
  have i: "{0..<3::int} = {0, 1, 2}" by auto
  have m: "col_max_abs kernel_example 0 = 4"
    by (simp add: col_max_abs_def kernel_example_def i)
  have m': "col_max_abs (kernel_example\<lparr>mc_count_a := [3, 0, 2]\<rparr>) 1 = 0"
    by (simp add: col_max_abs_def kernel_example_def)
  have t: "pivot_threshold kernel_example = 1 / 10"
    and p: "mc_min_pivot kernel_example = [1, 1, 1]"
    by (simp_all add: kernel_example_def)
  show ?thesis
    using colFixMax_min_pivot [of kernel_example 0, THEN mp, OF h]
      colFixMax_min_pivot [of "kernel_example\<lparr>mc_count_a := [3, 0, 2]\<rparr>" 1, THEN mp, OF h']
      h
    by (simp add: m m' t p numeral_nat)
qed

subsection \<open>Count-link lists: add and delete\<close>

lemma chain_ok_in_range:
  "chain_ok n l prev xs cur \<Longrightarrow> x \<in> set xs \<Longrightarrow> in_range n x \<and> in_range l x"
  by (induction xs arbitrary: prev cur) auto

lemma chain_ok_next_frame:
  "chain_ok n l prev xs cur \<Longrightarrow> 0 \<le> a \<Longrightarrow> a \<notin> set xs \<Longrightarrow> chain_ok (n[nat a := v]) l prev xs cur"
proof (induction xs arbitrary: prev cur)
  case Nil
  then show ?case by simp
next
  case (Cons x xs)
  then have "nat a \<noteq> nat x" by (auto simp: in_range_def)
  then show ?case using Cons by (auto simp: in_range_def)
qed

lemma chain_ok_last_frame:
  "chain_ok n l prev xs cur \<Longrightarrow> 0 \<le> a \<Longrightarrow> a \<notin> set xs \<Longrightarrow> chain_ok n (l[nat a := v]) prev xs cur"
proof (induction xs arbitrary: prev cur)
  case Nil
  then show ?case by simp
next
  case (Cons x xs)
  then have "nat a \<noteq> nat x" by (auto simp: in_range_def)
  then show ?case using Cons by (auto simp: in_range_def)
qed

lemma linkAdd_chain:
  assumes b: "bucket_chain (f, n, l) c xs" and i: "i \<notin> set xs"
    and r: "in_range n i" "in_range l i"
  shows "linkAdd (f, n, l) i c =
      Inr (f[nat c := i], n[nat i := f ! nat c],
           (if f ! nat c \<ge> 0 then l[nat i := - 2 - c, nat (f ! nat c) := i]
            else l[nat i := - 2 - c]))"
    and "bucket_chain (f[nat c := i], n[nat i := f ! nat c],
           (if f ! nat c \<ge> 0 then l[nat i := - 2 - c, nat (f ! nat c) := i]
            else l[nat i := - 2 - c])) c (i # xs)"
proof -
  have fc: "in_range f c" and d: "distinct xs"
    and ch: "chain_ok n l (- 2 - c) xs (f ! nat c)"
    using b by (simp_all add: bucket_chain_def)
  have i0: "0 \<le> i" using r by (simp add: in_range_def)
  have mr: "f ! nat c \<ge> 0 \<Longrightarrow> in_range l (f ! nat c)"
    using ch by (cases xs) auto
  show "linkAdd (f, n, l) i c =
      Inr (f[nat c := i], n[nat i := f ! nat c],
           (if f ! nat c \<ge> 0 then l[nat i := - 2 - c, nat (f ! nat c) := i]
            else l[nat i := - 2 - c]))"
    using fc r mr by (simp add: linkAdd_def Let_def in_range_def)
  show "bucket_chain (f[nat c := i], n[nat i := f ! nat c],
           (if f ! nat c \<ge> 0 then l[nat i := - 2 - c, nat (f ! nat c) := i]
            else l[nat i := - 2 - c])) c (i # xs)"
  proof (cases xs)
    case Nil
    then have "f ! nat c < 0" using ch by simp
    then show ?thesis using Nil fc r
      by (simp add: bucket_chain_def in_range_def nat_less_iff)
  next
    case (Cons m rest)
    then have m: "f ! nat c = m" "in_range n m" "in_range l m" "l ! nat m = - 2 - c"
      and rest: "chain_ok n l m rest (n ! nat m)"
      using ch by simp_all
    have m0: "0 \<le> m" using m by (simp add: in_range_def)
    have ne: "i \<noteq> m" "i \<notin> set rest" "m \<notin> set rest" using i d Cons by auto
    then have nn: "nat i \<noteq> nat m" using i0 m0 by simp
    have "chain_ok (n[nat i := m]) (l[nat i := - 2 - c, nat m := i]) m rest (n ! nat m)"
      using rest ne i0 m0 by (intro chain_ok_next_frame chain_ok_last_frame) auto
    then show ?thesis using Cons m fc r d i nn m0
      by (simp add: bucket_chain_def in_range_def nat_less_iff)
  qed
qed


lemma chain_ok_cur: "chain_ok n l prev xs cur \<Longrightarrow> xs \<noteq> [] \<Longrightarrow> cur = hd xs"
  by (cases xs) auto

lemma chain_ok_nonneg: "chain_ok n l prev xs cur \<Longrightarrow> x \<in> set xs \<Longrightarrow> 0 \<le> x"
  using chain_ok_in_range [of n l prev xs cur x] by (simp add: in_range_def)

lemma chain_last_closed:
  "chain_ok n l prev xs cur \<Longrightarrow> i \<in> set xs \<Longrightarrow>
   (hd xs = i \<and> l ! nat i = prev) \<or> l ! nat i \<in> set xs"
proof (induction xs arbitrary: prev cur)
  case Nil
  then show ?case by simp
next
  case (Cons x xs)
  show ?case
  proof (cases "i = x")
    case True
    then show ?thesis using Cons.prems by simp
  next
    case False
    then have "i \<in> set xs" and "chain_ok n l x xs (n ! nat x)" using Cons.prems by auto
    from Cons.IH [OF this(2) this(1)] show ?thesis by auto
  qed
qed

lemma chain_next_closed:
  "chain_ok n l prev xs cur \<Longrightarrow> i \<in> set xs \<Longrightarrow> n ! nat i < 0 \<or> n ! nat i \<in> set xs"
proof (induction xs arbitrary: prev cur)
  case Nil
  then show ?case by simp
next
  case (Cons x xs)
  show ?case
  proof (cases "i = x")
    case True
    then have "chain_ok n l x xs (n ! nat i)" using Cons.prems by simp
    then show ?thesis by (cases xs) auto
  next
    case False
    then have "i \<in> set xs" and "chain_ok n l x xs (n ! nat x)" using Cons.prems by auto
    from Cons.IH [OF this(2) this(1)] show ?thesis by auto
  qed
qed

lemma chain_ok_del:
  assumes "chain_ok n l prev xs cur" "distinct xs" "i \<in> set xs" "prev \<notin> set xs"
    and N: "N = (if l ! nat i \<ge> 0 then n[nat (l ! nat i) := n ! nat i] else n)"
    and L: "L = (if n ! nat i \<ge> 0 then l[nat (n ! nat i) := l ! nat i] else l)"
  shows "chain_ok N L prev (remove1 i xs) (if cur = i then n ! nat i else cur)"
  using assms(1-4)
proof (induction xs arbitrary: prev cur)
  case Nil
  then show ?case by simp
next
  case (Cons x xs)
  have x: "cur = x" "in_range n x" "in_range l x" "l ! nat x = prev"
    and rest: "chain_ok n l x xs (n ! nat x)"
    using Cons.prems(1) by simp_all
  have rN: "in_range N y = in_range n y" and rL: "in_range L y = in_range l y" for y
    by (simp_all add: N L in_range_def)
  show ?case
  proof (cases "x = i")
    case True
    have goal: "chain_ok N L prev xs (n ! nat i)"
    proof (cases xs)
      case Nil
      then show ?thesis using rest True by simp
    next
      case (Cons y r)
      then have y: "n ! nat i = y" "in_range n y" "in_range l y"
        and r: "chain_ok n l y r (n ! nat y)"
        using rest True by simp_all
      have y0: "0 \<le> y" using y by (simp add: in_range_def)
      have py: "prev \<noteq> y" "prev \<notin> set r" "y \<notin> set r"
        using Cons.prems(2,4) Cons by auto
      have Ly: "L ! nat y = prev"
        using y y0 x True by (simp add: L in_range_nat)
      have Ny: "N ! nat y = n ! nat y"
      proof (cases "prev \<ge> 0")
        case True
        then have "nat prev \<noteq> nat y" using py y0 by simp
        then show ?thesis using x \<open>x = i\<close> by (simp add: N)
      next
        case False
        then show ?thesis using x \<open>x = i\<close> by (simp add: N)
      qed
      have "chain_ok N L y r (n ! nat y)"
        unfolding N L using r py y0 x True y
        by (auto intro!: chain_ok_next_frame chain_ok_last_frame)
      then show ?thesis using Cons y Ly Ny by (simp add: rN rL)
    qed
    then show ?thesis using True x by simp
  next
    case False
    then have i: "i \<in> set xs" using Cons.prems(3) by simp
    have d: "distinct xs" "x \<notin> set xs" using Cons.prems(2) by simp_all
    have ih: "chain_ok N L x (remove1 i xs) (if n ! nat x = i then n ! nat i else n ! nat x)"
      using Cons.IH [OF rest d(1) i d(2)] .
    have x0: "0 \<le> x" using x by (simp add: in_range_def)
    have Lx: "L ! nat x = prev"
    proof (cases "n ! nat i \<ge> 0")
      case True
      then have "n ! nat i \<in> set xs" using chain_next_closed [OF rest i] by simp
      then have "n ! nat i \<noteq> x" using d by auto
      then have "nat (n ! nat i) \<noteq> nat x" using True x0 by simp
      then show ?thesis using x True by (simp add: L)
    next
      case False
      then show ?thesis using x by (simp add: L)
    qed
    have Nx: "N ! nat x = (if n ! nat x = i then n ! nat i else n ! nat x)"
    proof (cases "n ! nat x = i")
      case True
      have ne: "xs \<noteq> []" using i by auto
      then have "hd xs = i" using chain_ok_cur [OF rest] True by simp
      then have "l ! nat i = x" using rest ne by (cases xs) auto
      then show ?thesis using True x0 x by (simp add: N in_range_nat)
    next
      case nh: False
      have ne: "xs \<noteq> []" using i by auto
      then have "hd xs \<noteq> i" using chain_ok_cur [OF rest] nh by simp
      then have m: "l ! nat i \<in> set xs" using chain_last_closed [OF rest i] by auto
      then have "l ! nat i \<noteq> x" using d by auto
      moreover have "0 \<le> l ! nat i" using chain_ok_nonneg [OF rest m] .
      ultimately have "nat (l ! nat i) \<noteq> nat x" using x0 by simp
      then show ?thesis using nh by (simp add: N)
    qed
    show ?thesis using False x ih Lx Nx by (simp add: rN rL)
  qed
qed


lemma linkDel_chain:
  assumes b: "bucket_chain (f, n, l) c xs" and i: "i \<in> set xs"
  shows "linkDel (f, n, l) i = Inr (linkDel_result (f, n, l) i)"
    and "bucket_chain (linkDel_result (f, n, l) i) c (remove1 i xs)"
    and "(hd xs = i) = (l ! nat i < 0)"
proof -
  have fc: "in_range f c" and d: "distinct xs"
    and ch: "chain_ok n l (- 2 - c) xs (f ! nat c)"
    using b by (simp_all add: bucket_chain_def)
  have c0: "0 \<le> c" using fc by (simp add: in_range_def)
  have ri: "in_range n i" "in_range l i" using chain_ok_in_range [OF ch i] by simp_all
  have pn: "- 2 - c \<notin> set xs" using chain_ok_nonneg [OF ch, of "- 2 - c"] c0 by auto
  have ne: "xs \<noteq> []" using i by auto
  have cur: "f ! nat c = hd xs" using chain_ok_cur [OF ch ne] .
  have lastc: "(hd xs = i \<and> l ! nat i = - 2 - c) \<or> l ! nat i \<in> set xs"
    using chain_last_closed [OF ch i] .
  have nextc: "n ! nat i < 0 \<or> n ! nat i \<in> set xs"
    using chain_next_closed [OF ch i] .
  have lpos: "l ! nat i \<ge> 0 \<Longrightarrow> l ! nat i \<in> set xs" using lastc c0 by auto
  have lneg: "l ! nat i < 0 \<Longrightarrow> hd xs = i \<and> l ! nat i = - 2 - c"
    using lastc chain_ok_nonneg [OF ch, of "l ! nat i"] by auto
  have hdl: "hd xs = i \<Longrightarrow> l ! nat i = - 2 - c" using ch ne by (cases xs) auto
  show "(hd xs = i) = (l ! nat i < 0)" using hdl lneg c0 by auto
  have g1: "l ! nat i \<ge> 0 \<Longrightarrow> in_range n (l ! nat i)"
    using lpos chain_ok_in_range [OF ch] by blast
  have g2: "l ! nat i < 0 \<Longrightarrow> in_range f (- (l ! nat i) - 2)"
    using lneg fc by simp
  have g3: "n ! nat i \<ge> 0 \<Longrightarrow> in_range l (n ! nat i)"
    using nextc chain_ok_in_range [OF ch] by force
  show "linkDel (f, n, l) i = Inr (linkDel_result (f, n, l) i)"
    using ri g1 g2 g3 by (auto simp: linkDel_def linkDel_result_def Let_def)
  have del: "chain_ok (if l ! nat i \<ge> 0 then n[nat (l ! nat i) := n ! nat i] else n)
      (if n ! nat i \<ge> 0 then l[nat (n ! nat i) := l ! nat i] else l) (- 2 - c)
      (remove1 i xs) (if f ! nat c = i then n ! nat i else f ! nat c)"
    using chain_ok_del [OF ch d i pn refl refl] .
  have first: "(if l ! nat i \<ge> 0 then f else f[nat (- (l ! nat i) - 2) := n ! nat i]) ! nat c =
      (if f ! nat c = i then n ! nat i else f ! nat c)"
  proof (cases "l ! nat i \<ge> 0")
    case True
    then have "hd xs \<noteq> i" using hdl c0 by auto
    then show ?thesis using True cur by simp
  next
    case False
    then have "hd xs = i" "l ! nat i = - 2 - c" using lneg by auto
    then show ?thesis using False cur fc by (simp add: in_range_nat)
  qed
  have "in_range (if l ! nat i \<ge> 0 then f else f[nat (- (l ! nat i) - 2) := n ! nat i]) c"
    using fc by (simp add: in_range_def)
  then show "bucket_chain (linkDel_result (f, n, l) i) c (remove1 i xs)"
    using del first d by (simp add: bucket_chain_def linkDel_result_def)
qed

lemma linkDel_other_bucket:
  assumes b: "bucket_chain (f, n, l) c xs" and i: "i \<in> set xs"
    and o: "bucket_chain (f, n, l) c' ys" "c' \<noteq> c" "set xs \<inter> set ys = {}"
  shows "bucket_chain (linkDel_result (f, n, l) i) c' ys"
proof -
  have fc: "in_range f c" and ch: "chain_ok n l (- 2 - c) xs (f ! nat c)"
    using b by (simp_all add: bucket_chain_def)
  have fc': "in_range f c'" and d': "distinct ys"
    and ch': "chain_ok n l (- 2 - c') ys (f ! nat c')"
    using o(1) by (simp_all add: bucket_chain_def)
  have c0: "0 \<le> c" "0 \<le> c'" using fc fc' by (simp_all add: in_range_def)
  then have nc: "nat c \<noteq> nat c'" using o(2) by simp
  have lastc: "(hd xs = i \<and> l ! nat i = - 2 - c) \<or> l ! nat i \<in> set xs"
    using chain_last_closed [OF ch i] .
  have nextc: "n ! nat i < 0 \<or> n ! nat i \<in> set xs"
    using chain_next_closed [OF ch i] .
  have lneg: "l ! nat i < 0 \<Longrightarrow> l ! nat i = - 2 - c"
    using lastc chain_ok_nonneg [OF ch, of "l ! nat i"] by auto
  have lpos: "l ! nat i \<ge> 0 \<Longrightarrow> l ! nat i \<notin> set ys" using lastc c0 o(3) by auto
  have npos: "n ! nat i \<ge> 0 \<Longrightarrow> n ! nat i \<notin> set ys" using nextc o(3) by auto
  have first: "(if l ! nat i \<ge> 0 then f else f[nat (- (l ! nat i) - 2) := n ! nat i]) ! nat c' =
      f ! nat c'"
    using lneg nc by auto
  have chain: "chain_ok (if l ! nat i \<ge> 0 then n[nat (l ! nat i) := n ! nat i] else n)
      (if n ! nat i \<ge> 0 then l[nat (n ! nat i) := l ! nat i] else l) (- 2 - c') ys (f ! nat c')"
    using ch' lpos npos by (auto intro!: chain_ok_next_frame chain_ok_last_frame)
  have "in_range (if l ! nat i \<ge> 0 then f else f[nat (- (l ! nat i) - 2) := n ! nat i]) c'"
    using fc' by (simp add: in_range_def)
  then show ?thesis using first chain d' by (simp add: bucket_chain_def linkDel_result_def)
qed

lemma linkDel_after_linkAdd:
  assumes b: "bucket_chain (f, n, l) c xs" and i: "i \<notin> set xs"
    and r: "in_range n i" "in_range l i"
  shows "linkDel (f[nat c := i], n[nat i := f ! nat c],
           (if f ! nat c \<ge> 0 then l[nat i := - 2 - c, nat (f ! nat c) := i]
            else l[nat i := - 2 - c])) i =
         Inr (f, n[nat i := f ! nat c], l[nat i := - 2 - c])"
proof -
  have fc: "in_range f c" and d: "distinct xs"
    and ch: "chain_ok n l (- 2 - c) xs (f ! nat c)"
    using b by (simp_all add: bucket_chain_def)
  have c0: "0 \<le> c" using fc by (simp add: in_range_def)
  have i0: "0 \<le> i" using r by (simp add: in_range_def)
  have ni: "nat i < length n" "nat i < length l" "nat c < length f"
    using r fc by (simp_all add: in_range_nat)
  show ?thesis
  proof (cases "f ! nat c \<ge> 0")
    case False
    then show ?thesis using r fc ni c0
      by (simp add: linkDel_def Let_def in_range_def list_update_same_conv)
  next
    case True
    then obtain rest where xs: "xs = f ! nat c # rest" using ch by (cases xs) auto
    then have m: "in_range l (f ! nat c)" "l ! nat (f ! nat c) = - 2 - c" "f ! nat c \<noteq> i"
      using ch i by auto
    then have nm: "nat (f ! nat c) \<noteq> nat i" "nat (f ! nat c) < length l"
      using True i0 by (simp_all add: in_range_nat)
    have "l[nat i := - 2 - c, nat (f ! nat c) := i, nat (f ! nat c) := - 2 - c] =
        l[nat i := - 2 - c]"
      using nm m(2) by (simp add: list_update_same_conv)
    then show ?thesis using True r fc ni c0 m nm
      by (simp add: linkDel_def Let_def in_range_def list_update_same_conv)
  qed
qed


lemma col_links_set [simp]: "col_links (set_col_links s lk) = lk"
  by (cases lk) (simp add: col_links_def set_col_links_def)

lemma row_links_set [simp]: "row_links (set_row_links s lk) = lk"
  by (cases lk) (simp add: row_links_def set_row_links_def)

lemma link_roundtrip:
  assumes b: "bucket_chain (f, n, l) c xs" and i: "i \<notin> set xs"
    and r: "in_range n i" "in_range l i"
  shows "\<exists>f1 n1 l1. linkAdd (f, n, l) i c = Inr (f1, n1, l1) \<and>
      f1 ! nat c = i \<and> l1 ! nat i = - 2 - c \<and> n1 ! nat i = f ! nat c \<and>
      bucket_chain (f1, n1, l1) c (i # xs) \<and>
      linkDel (f1, n1, l1) i = Inr (f, n[nat i := f ! nat c], l[nat i := - 2 - c]) \<and>
      bucket_chain (f, n[nat i := f ! nat c], l[nat i := - 2 - c]) c xs"
proof -
  have fc: "in_range f c" and d: "distinct xs"
    and ch: "chain_ok n l (- 2 - c) xs (f ! nat c)"
    using b by (simp_all add: bucket_chain_def)
  have i0: "0 \<le> i" using r by (simp add: in_range_def)
  have ni: "nat i < length n" "nat i < length l" "nat c < length f"
    using r fc by (simp_all add: in_range_nat)
  have hd: "f ! nat c \<ge> 0 \<Longrightarrow> f ! nat c \<in> set xs" using ch by (cases xs) auto
  have nm: "nat (f ! nat c) \<noteq> nat i" if "f ! nat c \<ge> 0"
  proof -
    have "f ! nat c \<noteq> i" using hd [OF that] i by auto
    then show ?thesis using that i0 by simp
  qed
  have restored: "bucket_chain (f, n[nat i := f ! nat c], l[nat i := - 2 - c]) c xs"
    using fc d ch i i0
    by (auto simp: bucket_chain_def intro!: chain_ok_next_frame chain_ok_last_frame)
  show ?thesis
    using linkAdd_chain [OF b i r] linkDel_after_linkAdd [OF b i r] restored ni nm
    by (intro exI conjI) (assumption | simp)+
qed


lemma link_unlink:
  assumes b: "bucket_chain lk c xs" and i: "i \<in> set xs"
  shows "\<exists>lk'. linkDel lk i = Inr lk' \<and> bucket_chain lk' c (remove1 i xs) \<and>
      (\<forall>c' ys. bucket_chain lk c' ys \<and> c' \<noteq> c \<and> set xs \<inter> set ys = {} \<longrightarrow>
         bucket_chain lk' c' ys) \<and>
      (hd xs = i \<longleftrightarrow> snd (snd lk) ! nat i < 0) \<and>
      linkDel_accesses lk i \<le> 4"
proof -
  obtain f n l where lk: "lk = (f, n, l)" by (cases lk)
  show ?thesis
    using linkDel_chain [OF b [unfolded lk] i]
      linkDel_other_bucket [OF b [unfolded lk] i]
    unfolding lk by (intro exI [of _ "linkDel_result (f, n, l) i"])
      (auto simp: linkDel_accesses_def)
qed

lemma clink_roundtrip:
  assumes "bucket_chain (col_links s) c xs" "i \<notin> set xs"
    "in_range (col_link_next s) i" "in_range (col_link_last s) i"
  shows "\<exists>s1. clinkAdd s i c = Inr s1 \<and>
      col_link_first s1 ! nat c = i \<and> col_link_last s1 ! nat i = - 2 - c \<and>
      col_link_next s1 ! nat i = col_link_first s ! nat c \<and>
      bucket_chain (col_links s1) c (i # xs) \<and>
      clinkDel s1 i =
        Inr (s\<lparr>col_link_next := (col_link_next s)[nat i := col_link_first s ! nat c],
               col_link_last := (col_link_last s)[nat i := - 2 - c]\<rparr>) \<and>
      bucket_chain (col_links
        (s\<lparr>col_link_next := (col_link_next s)[nat i := col_link_first s ! nat c],
           col_link_last := (col_link_last s)[nat i := - 2 - c]\<rparr>)) c xs"
proof -
  from link_roundtrip [OF assms(1) [unfolded col_links_def] assms(2-4)]
  obtain f1 n1 l1 where
    add: "linkAdd (col_link_first s, col_link_next s, col_link_last s) i c = Inr (f1, n1, l1)"
    and v: "f1 ! nat c = i" "l1 ! nat i = - 2 - c" "n1 ! nat i = col_link_first s ! nat c"
    and ch: "bucket_chain (f1, n1, l1) c (i # xs)"
    and del: "linkDel (f1, n1, l1) i =
      Inr (col_link_first s, (col_link_next s)[nat i := col_link_first s ! nat c],
           (col_link_last s)[nat i := - 2 - c])"
    and re: "bucket_chain (col_link_first s, (col_link_next s)[nat i := col_link_first s ! nat c],
           (col_link_last s)[nat i := - 2 - c]) c xs"
    by blast
  show ?thesis
    using add v ch del re
    by (intro exI [of _ "set_col_links s (f1, n1, l1)"])
      (simp add: clinkAdd_def clinkDel_def col_links_def set_col_links_def)
qed

lemma rlink_roundtrip:
  assumes "bucket_chain (row_links s) c xs" "i \<notin> set xs"
    "in_range (row_link_next s) i" "in_range (row_link_last s) i"
  shows "\<exists>s1. rlinkAdd s i c = Inr s1 \<and>
      row_link_first s1 ! nat c = i \<and> row_link_last s1 ! nat i = - 2 - c \<and>
      row_link_next s1 ! nat i = row_link_first s ! nat c \<and>
      bucket_chain (row_links s1) c (i # xs) \<and>
      rlinkDel s1 i =
        Inr (s\<lparr>row_link_next := (row_link_next s)[nat i := row_link_first s ! nat c],
               row_link_last := (row_link_last s)[nat i := - 2 - c]\<rparr>) \<and>
      bucket_chain (row_links
        (s\<lparr>row_link_next := (row_link_next s)[nat i := row_link_first s ! nat c],
           row_link_last := (row_link_last s)[nat i := - 2 - c]\<rparr>)) c xs"
proof -
  from link_roundtrip [OF assms(1) [unfolded row_links_def] assms(2-4)]
  obtain f1 n1 l1 where
    add: "linkAdd (row_link_first s, row_link_next s, row_link_last s) i c = Inr (f1, n1, l1)"
    and v: "f1 ! nat c = i" "l1 ! nat i = - 2 - c" "n1 ! nat i = row_link_first s ! nat c"
    and ch: "bucket_chain (f1, n1, l1) c (i # xs)"
    and del: "linkDel (f1, n1, l1) i =
      Inr (row_link_first s, (row_link_next s)[nat i := row_link_first s ! nat c],
           (row_link_last s)[nat i := - 2 - c])"
    and re: "bucket_chain (row_link_first s, (row_link_next s)[nat i := row_link_first s ! nat c],
           (row_link_last s)[nat i := - 2 - c]) c xs"
    by blast
  show ?thesis
    using add v ch del re
    by (intro exI [of _ "set_row_links s (f1, n1, l1)"])
      (simp add: rlinkAdd_def rlinkDel_def row_links_def set_row_links_def)
qed

lemma clink_unlink:
  assumes "bucket_chain (col_links s) c xs" "i \<in> set xs"
  shows "\<exists>s'. clinkDel s i = Inr s' \<and> bucket_chain (col_links s') c (remove1 i xs) \<and>
      (\<forall>c' ys. bucket_chain (col_links s) c' ys \<and> c' \<noteq> c \<and> set xs \<inter> set ys = {} \<longrightarrow>
         bucket_chain (col_links s') c' ys) \<and>
      (hd xs = i \<longleftrightarrow> col_link_last s ! nat i < 0) \<and>
      linkDel_accesses (col_links s) i \<le> 4"
proof -
  from link_unlink [OF assms] obtain lk' where
    "linkDel (col_links s) i = Inr lk'" "bucket_chain lk' c (remove1 i xs)"
    "\<forall>c' ys. bucket_chain (col_links s) c' ys \<and> c' \<noteq> c \<and> set xs \<inter> set ys = {} \<longrightarrow>
         bucket_chain lk' c' ys"
    "hd xs = i \<longleftrightarrow> snd (snd (col_links s)) ! nat i < 0"
    "linkDel_accesses (col_links s) i \<le> 4"
    by blast
  moreover have "snd (snd (col_links s)) = col_link_last s" by (simp add: col_links_def)
  ultimately show ?thesis
    by (intro exI [of _ "set_col_links s lk'"]) (simp add: clinkDel_def)
qed

lemma rlink_unlink:
  assumes "bucket_chain (row_links s) c xs" "i \<in> set xs"
  shows "\<exists>s'. rlinkDel s i = Inr s' \<and> bucket_chain (row_links s') c (remove1 i xs) \<and>
      (\<forall>c' ys. bucket_chain (row_links s) c' ys \<and> c' \<noteq> c \<and> set xs \<inter> set ys = {} \<longrightarrow>
         bucket_chain (row_links s') c' ys) \<and>
      (hd xs = i \<longleftrightarrow> row_link_last s ! nat i < 0) \<and>
      linkDel_accesses (row_links s) i \<le> 4"
proof -
  from link_unlink [OF assms] obtain lk' where
    "linkDel (row_links s) i = Inr lk'" "bucket_chain lk' c (remove1 i xs)"
    "\<forall>c' ys. bucket_chain (row_links s) c' ys \<and> c' \<noteq> c \<and> set xs \<inter> set ys = {} \<longrightarrow>
         bucket_chain lk' c' ys"
    "hd xs = i \<longleftrightarrow> snd (snd (row_links s)) ! nat i < 0"
    "linkDel_accesses (row_links s) i \<le> 4"
    by blast
  moreover have "snd (snd (row_links s)) = row_link_last s" by (simp add: row_links_def)
  ultimately show ?thesis
    by (intro exI [of _ "set_row_links s lk'"]) (simp add: rlinkDel_def)
qed


text \<open>
  C6. In a bucket structure where the bucket of count \<open>c\<close> is well formed with chain
  \<open>xs\<close> and \<open>i\<close> is not on it, \<open>clinkAdd(i, c)\<close> succeeds and makes \<open>i\<close> the head:
  \<open>col_link_first[c] = i\<close>, \<open>col_link_last[i] = -2 - c\<close>, \<open>col_link_next[i]\<close> is the old
  head, and the bucket holds \<open>i # xs\<close>. \<open>clinkDel(i)\<close> right after it succeeds and gives
  back \<open>col_link_first\<close> whole, and \<open>col_link_next\<close> and \<open>col_link_last\<close> everywhere but
  at position \<open>i\<close>; the bucket holds \<open>xs\<close> again. For any member \<open>i\<close> of a well-formed
  bucket, head or not, \<open>clinkDel(i)\<close> succeeds with at most four vector accesses, leaves
  the chain without \<open>i\<close> and keeps every other bucket whose chain is disjoint from this
  one; \<open>i\<close> is the head exactly when \<open>col_link_last[i]\<close> is negative. The same holds for
  \<open>rlinkAdd\<close> and \<open>rlinkDel\<close>.
\<close>

theorem link_add_del:
  "(bucket_chain (col_links s) c xs \<and> i \<notin> set xs \<and>
    in_range (col_link_next s) i \<and> in_range (col_link_last s) i \<longrightarrow>
      (\<exists>s1. clinkAdd s i c = Inr s1 \<and>
         col_link_first s1 ! nat c = i \<and> col_link_last s1 ! nat i = - 2 - c \<and>
         col_link_next s1 ! nat i = col_link_first s ! nat c \<and>
         bucket_chain (col_links s1) c (i # xs) \<and>
         clinkDel s1 i =
           Inr (s\<lparr>col_link_next := (col_link_next s)[nat i := col_link_first s ! nat c],
                  col_link_last := (col_link_last s)[nat i := - 2 - c]\<rparr>) \<and>
         bucket_chain (col_links
           (s\<lparr>col_link_next := (col_link_next s)[nat i := col_link_first s ! nat c],
              col_link_last := (col_link_last s)[nat i := - 2 - c]\<rparr>)) c xs)) \<and>
   (bucket_chain (col_links s) c xs \<and> i \<in> set xs \<longrightarrow>
      (\<exists>s'. clinkDel s i = Inr s' \<and> bucket_chain (col_links s') c (remove1 i xs) \<and>
         (\<forall>c' ys. bucket_chain (col_links s) c' ys \<and> c' \<noteq> c \<and> set xs \<inter> set ys = {} \<longrightarrow>
            bucket_chain (col_links s') c' ys) \<and>
         (hd xs = i \<longleftrightarrow> col_link_last s ! nat i < 0) \<and>
         linkDel_accesses (col_links s) i \<le> 4)) \<and>
   (bucket_chain (row_links s) c xs \<and> i \<notin> set xs \<and>
    in_range (row_link_next s) i \<and> in_range (row_link_last s) i \<longrightarrow>
      (\<exists>s1. rlinkAdd s i c = Inr s1 \<and>
         row_link_first s1 ! nat c = i \<and> row_link_last s1 ! nat i = - 2 - c \<and>
         row_link_next s1 ! nat i = row_link_first s ! nat c \<and>
         bucket_chain (row_links s1) c (i # xs) \<and>
         rlinkDel s1 i =
           Inr (s\<lparr>row_link_next := (row_link_next s)[nat i := row_link_first s ! nat c],
                  row_link_last := (row_link_last s)[nat i := - 2 - c]\<rparr>) \<and>
         bucket_chain (row_links
           (s\<lparr>row_link_next := (row_link_next s)[nat i := row_link_first s ! nat c],
              row_link_last := (row_link_last s)[nat i := - 2 - c]\<rparr>)) c xs)) \<and>
   (bucket_chain (row_links s) c xs \<and> i \<in> set xs \<longrightarrow>
      (\<exists>s'. rlinkDel s i = Inr s' \<and> bucket_chain (row_links s') c (remove1 i xs) \<and>
         (\<forall>c' ys. bucket_chain (row_links s) c' ys \<and> c' \<noteq> c \<and> set xs \<inter> set ys = {} \<longrightarrow>
            bucket_chain (row_links s') c' ys) \<and>
         (hd xs = i \<longleftrightarrow> row_link_last s ! nat i < 0) \<and>
         linkDel_accesses (row_links s) i \<le> 4))"
  using clink_roundtrip [of s c xs i] clink_unlink [of s c xs i]
    rlink_roundtrip [of s c xs i] rlink_unlink [of s c xs i]
  by blast

theorem link_add_del_witness:
  "bucket_chain (col_links (kernel_example\<lparr>col_link_first := [- 1, - 1, 2, 0]\<rparr>)) 2 [2] \<and>
   clinkAdd (kernel_example\<lparr>col_link_first := [- 1, - 1, 2, 0]\<rparr>) 1 2 =
     Inr (kernel_example\<lparr>col_link_first := [- 1, - 1, 1, 0], col_link_next := [- 1, 2, - 1],
            col_link_last := [- 5, - 4, 1]\<rparr>) \<and>
   clinkDel (kernel_example\<lparr>col_link_first := [- 1, - 1, 1, 0], col_link_next := [- 1, 2, - 1],
            col_link_last := [- 5, - 4, 1]\<rparr>) 1 =
     Inr (kernel_example\<lparr>col_link_first := [- 1, - 1, 2, 0], col_link_next := [- 1, 2, - 1],
            col_link_last := [- 5, - 4, - 4]\<rparr>) \<and>
   bucket_chain (col_links (kernel_example\<lparr>col_link_first := [- 1, - 1, 1, 0],
      col_link_next := [- 1, 2, - 1], col_link_last := [- 5, - 4, 1]\<rparr>)) 2 [1, 2] \<and>
   bucket_chain (col_links kernel_example) 3 [0] \<and>
   clinkDel kernel_example 0 = Inr (kernel_example\<lparr>col_link_first := [- 1, 1, 2, - 1]\<rparr>) \<and>
   bucket_chain (col_links (kernel_example\<lparr>col_link_first := [- 1, 1, 2, - 1]\<rparr>)) 3 [] \<and>
   bucket_chain (row_links (kernel_example\<lparr>row_link_first := [- 1, - 1, 1, - 1],
      row_link_last := [1, - 4, - 4]\<rparr>)) 2 [1, 0] \<and>
   rlinkAdd (kernel_example\<lparr>row_link_first := [- 1, - 1, 1, - 1],
      row_link_last := [1, - 4, - 4]\<rparr>) 2 2 = Inr kernel_example \<and>
   bucket_chain (row_links kernel_example) 2 [2, 1, 0] \<and>
   rlinkDel kernel_example 2 =
     Inr (kernel_example\<lparr>row_link_first := [- 1, - 1, 1, - 1], row_link_last := [1, - 4, - 4]\<rparr>) \<and>
   rlinkDel kernel_example 1 =
     Inr (kernel_example\<lparr>row_link_next := [- 1, 0, 0], row_link_last := [2, 2, - 4]\<rparr>) \<and>
   bucket_chain (row_links
     (kernel_example\<lparr>row_link_next := [- 1, 0, 0], row_link_last := [2, 2, - 4]\<rparr>)) 2 [2, 0]"
proof -
  note T = link_add_del
  have h1: "bucket_chain (col_links (kernel_example\<lparr>col_link_first := [- 1, - 1, 2, 0]\<rparr>)) 2 [2] \<and>
      1 \<notin> set [2::int] \<and>
      in_range (col_link_next (kernel_example\<lparr>col_link_first := [- 1, - 1, 2, 0]\<rparr>)) 1 \<and>
      in_range (col_link_last (kernel_example\<lparr>col_link_first := [- 1, - 1, 2, 0]\<rparr>)) 1"
    by code_simp
  have h2: "bucket_chain (col_links kernel_example) 3 [0] \<and> 0 \<in> set [0::int]"
    by code_simp
  have h3: "bucket_chain (row_links (kernel_example\<lparr>row_link_first := [- 1, - 1, 1, - 1],
      row_link_last := [1, - 4, - 4]\<rparr>)) 2 [1, 0] \<and> 2 \<notin> set [1, 0::int] \<and>
      in_range (row_link_next (kernel_example\<lparr>row_link_first := [- 1, - 1, 1, - 1],
        row_link_last := [1, - 4, - 4]\<rparr>)) 2 \<and>
      in_range (row_link_last (kernel_example\<lparr>row_link_first := [- 1, - 1, 1, - 1],
        row_link_last := [1, - 4, - 4]\<rparr>)) 2"
    by code_simp
  have h4: "bucket_chain (row_links kernel_example) 2 [2, 1, 0] \<and> 1 \<in> set [2, 1, 0::int]"
    by code_simp
  have e1: "clinkAdd (kernel_example\<lparr>col_link_first := [- 1, - 1, 2, 0]\<rparr>) 1 2 =
     Inr (kernel_example\<lparr>col_link_first := [- 1, - 1, 1, 0], col_link_next := [- 1, 2, - 1],
            col_link_last := [- 5, - 4, 1]\<rparr>)"
    by code_simp
  have e2: "clinkDel (kernel_example\<lparr>col_link_first := [- 1, - 1, 1, 0], col_link_next := [- 1, 2, - 1],
            col_link_last := [- 5, - 4, 1]\<rparr>) 1 =
     Inr (kernel_example\<lparr>col_link_first := [- 1, - 1, 2, 0], col_link_next := [- 1, 2, - 1],
            col_link_last := [- 5, - 4, - 4]\<rparr>)"
    by code_simp
  have e3: "clinkDel kernel_example 0 = Inr (kernel_example\<lparr>col_link_first := [- 1, 1, 2, - 1]\<rparr>)"
    by code_simp
  have e4: "rlinkAdd (kernel_example\<lparr>row_link_first := [- 1, - 1, 1, - 1],
      row_link_last := [1, - 4, - 4]\<rparr>) 2 2 = Inr kernel_example"
    by code_simp
  have e5: "rlinkDel kernel_example 2 =
     Inr (kernel_example\<lparr>row_link_first := [- 1, - 1, 1, - 1], row_link_last := [1, - 4, - 4]\<rparr>)"
    by code_simp
  have e6: "rlinkDel kernel_example 1 =
     Inr (kernel_example\<lparr>row_link_next := [- 1, 0, 0], row_link_last := [2, 2, - 4]\<rparr>)"
    by code_simp
  have u1: "bucket_chain (col_links (kernel_example\<lparr>col_link_first := [- 1, 1, 2, - 1]\<rparr>)) 3 []"
    using T [of kernel_example 3 "[0]" 0, THEN conjunct2, THEN conjunct1, THEN mp, OF h2] e3
    by auto
  have u2: "bucket_chain (row_links
     (kernel_example\<lparr>row_link_next := [- 1, 0, 0], row_link_last := [2, 2, - 4]\<rparr>)) 2 [2, 0]"
    using T [of kernel_example 2 "[2, 1, 0]" 1, THEN conjunct2, THEN conjunct2, THEN conjunct2,
        THEN mp, OF h4] e6
    by auto
  have u3: "bucket_chain (col_links (kernel_example\<lparr>col_link_first := [- 1, - 1, 1, 0],
      col_link_next := [- 1, 2, - 1], col_link_last := [- 5, - 4, 1]\<rparr>)) 2 [1, 2]"
    using T [of "kernel_example\<lparr>col_link_first := [- 1, - 1, 2, 0]\<rparr>" 2 "[2]" 1,
        THEN conjunct1, THEN mp, OF h1] e1
    by auto
  have u4: "bucket_chain (row_links kernel_example) 2 [2, 1, 0]"
    using T [of "kernel_example\<lparr>row_link_first := [- 1, - 1, 1, - 1],
        row_link_last := [1, - 4, - 4]\<rparr>" 2 "[1, 0]" 2,
        THEN conjunct2, THEN conjunct2, THEN conjunct1, THEN mp, OF h3] e4
    by auto
  show ?thesis
    using h1 h2 h3 h4 e1 e2 e3 e4 e5 e6 u1 u2 u3 u4 by simp
qed

subsection \<open>Consistency of the two views\<close>

lemma sum_list_update_int:
  fixes xs :: "int list"
  shows "i < length xs \<Longrightarrow> sum_list (xs[i := v]) = sum_list xs - xs ! i + v"
proof (induction xs arbitrary: i)
  case Nil
  then show ?case by simp
next
  case (Cons x xs)
  then show ?case by (cases i) auto
qed

lemma list_all_update:
  "list_all P xs \<Longrightarrow> P v \<Longrightarrow> list_all P (xs[i := v])"
  by (induction xs arbitrary: i) (auto split: nat.splits)

lemma colInsert_counts:
  assumes "colInsert t s iCol iRow v = Inr s1"
  shows "mc_count_a s1 = (mc_count_a s)[nat iCol := mc_count_a s ! nat iCol + 1]"
    and "in_range (mc_count_a s) iCol" and "mr_count s1 = mr_count s"
    and "mr_start s1 = mr_start s" and "mr_index s1 = mr_index s" and "mc_start s1 = mc_start s"
  using assms by (auto simp: colInsert_def Let_def split: if_splits)

lemma rowInsert_counts:
  assumes "rowInsert s iCol iRow = Inr s1"
  shows "mr_count s1 = (mr_count s)[nat iRow := mr_count s ! nat iRow + 1]"
    and "in_range (mr_count s) iRow" and "mc_count_a s1 = mc_count_a s"
    and "mc_start s1 = mc_start s" and "mr_start s1 = mr_start s"
  using assms by (auto simp: rowInsert_def Let_def split: if_splits)

lemma colDelete_counts:
  assumes "colDelete s iCol iRow = Inr (v, s1)"
  shows "mc_count_a s1 = (mc_count_a s)[nat iCol := mc_count_a s ! nat iCol - 1]"
    and "in_range (mc_count_a s) iCol" and "mr_count s1 = mr_count s"
    and "mr_start s1 = mr_start s" and "mr_index s1 = mr_index s" and "mc_start s1 = mc_start s"
  using assms by (auto simp: colDelete_def Let_def split: if_splits sum.splits)

lemma rowDelete_counts:
  assumes "rowDelete s iCol iRow = Inr s1"
  shows "mr_count s1 = (mr_count s)[nat iRow := mr_count s ! nat iRow - 1]"
    and "in_range (mr_count s) iRow" and "mc_count_a s1 = mc_count_a s"
    and "mc_start s1 = mc_start s" and "mr_start s1 = mr_start s"
  using assms by (auto simp: rowDelete_def Let_def split: if_splits sum.splits)

lemma insert_pair_sums:
  assumes c: "colInsert t s iCol iRow v = Inr s1" and r: "rowInsert s1 iCol iRow = Inr s2"
  shows "sum_list (mc_count_a s2) = sum_list (mc_count_a s) + 1"
    and "sum_list (mr_count s2) = sum_list (mr_count s) + 1"
proof -
  note cc = colInsert_counts [OF c] and rc = rowInsert_counts [OF r]
  show "sum_list (mc_count_a s2) = sum_list (mc_count_a s) + 1"
    using cc(1,2) rc(3) by (simp add: sum_list_update_int in_range_nat)
  have "in_range (mr_count s) iRow" using rc(2) cc(3) by simp
  then show "sum_list (mr_count s2) = sum_list (mr_count s) + 1"
    using rc(1) cc(3) by (simp add: sum_list_update_int in_range_nat)
qed

lemma delete_pair_sums:
  assumes c: "colDelete s iCol iRow = Inr (v, s1)" and r: "rowDelete s1 iCol iRow = Inr s2"
  shows "sum_list (mc_count_a s2) = sum_list (mc_count_a s) - 1"
    and "sum_list (mr_count s2) = sum_list (mr_count s) - 1"
proof -
  note cc = colDelete_counts [OF c] and rc = rowDelete_counts [OF r]
  show "sum_list (mc_count_a s2) = sum_list (mc_count_a s) - 1"
    using cc(1,2) rc(3) by (simp add: sum_list_update_int in_range_nat)
  have "in_range (mr_count s) iRow" using rc(2) cc(3) by simp
  then show "sum_list (mr_count s2) = sum_list (mr_count s) - 1"
    using rc(1) cc(3) by (simp add: sum_list_update_int in_range_nat)
qed

lemma quiescent_consistent:
  assumes "quiescent t s0 s" "counts_consistent s0"
  shows "counts_consistent s"
  using assms
proof (induction rule: quiescent.induct)
  case initial
  then show ?case .
next
  case (insert_pair s iCol iRow v s1 s2)
  then have ok: "counts_consistent s" by simp
  note cc = colInsert_counts [OF insert_pair.hyps(2)]
    and rc = rowInsert_counts [OF insert_pair.hyps(3)]
  note sums = insert_pair_sums [OF insert_pair.hyps(2,3)]
  have a: "0 \<le> mc_count_a s ! nat iCol + 1"
    using ok cc(2) by (simp add: counts_consistent_def list_all_length in_range_nat)
  have b: "0 \<le> mr_count s ! nat iRow + 1"
    using ok rc(2) cc(3) by (simp add: counts_consistent_def list_all_length in_range_nat)
  have "list_all (\<lambda>c. 0 \<le> c) (mc_count_a s2)"
    using ok a cc(1) rc(3) by (simp add: counts_consistent_def list_all_update)
  moreover have "list_all (\<lambda>c. 0 \<le> c) (mr_count s2)"
    using ok b cc(3) rc(1) by (simp add: counts_consistent_def list_all_update)
  ultimately show ?case using sums ok by (simp add: counts_consistent_def)
next
  case (delete_pair s iCol iRow v s1 s2)
  then have ok: "counts_consistent s" by simp
  note cc = colDelete_counts [OF delete_pair.hyps(4)]
    and rc = rowDelete_counts [OF delete_pair.hyps(5)]
  note sums = delete_pair_sums [OF delete_pair.hyps(4,5)]
  have a: "0 \<le> mc_count_a s ! nat iCol - 1"
    using delete_pair.hyps(2) by (auto simp: col_has_live_def)
  have b: "0 \<le> mr_count s ! nat iRow - 1"
    using delete_pair.hyps(3) by (auto simp: row_has_live_def)
  have "list_all (\<lambda>c. 0 \<le> c) (mc_count_a s2)"
    using ok a cc(1) rc(3) by (simp add: counts_consistent_def list_all_update)
  moreover have "list_all (\<lambda>c. 0 \<le> c) (mr_count s2)"
    using ok b cc(3) rc(1) by (simp add: counts_consistent_def list_all_update)
  ultimately show ?case using sums ok by (simp add: counts_consistent_def)
qed

lemma sum_nat_counts:
  fixes xs :: "int list"
  assumes "list_all (\<lambda>c. 0 \<le> c) xs"
  shows "int (\<Sum>j = 0..<length xs. nat (xs ! j)) = sum_list xs"
proof -
  have "int (\<Sum>j = 0..<length xs. nat (xs ! j)) = (\<Sum>j = 0..<length xs. int (nat (xs ! j)))"
    by simp
  also have "\<dots> = (\<Sum>j = 0..<length xs. xs ! j)"
    using assms by (intro sum.cong) (auto simp: list_all_length)
  also have "\<dots> = sum_list xs" by (simp add: sum_list_sum_nth)
  finally show ?thesis .
qed

lemma num_live_counts:
  assumes "counts_consistent s"
  shows "int (num_live_col s) = sum_list (mc_count_a s)"
    and "int (num_live_row s) = sum_list (mr_count s)"
  using assms sum_nat_counts [of "mc_count_a s"] sum_nat_counts [of "mr_count s"]
  by (simp_all add: num_live_col_def num_live_row_def counts_consistent_def)


text \<open>
  C5. Starting from consistent counts, in every quiescent state the sum of \<open>mc_count_a\<close>
  equals the sum of \<open>mr_count\<close>, and both equal the number of live kernel entries, counted
  in either view. A matched pair \<open>colInsert(iCol, iRow, v)\<close>, \<open>rowInsert(iCol, iRow)\<close> that
  succeeds raises both sums by one; a matched pair \<open>colDelete(iCol, iRow)\<close>,
  \<open>rowDelete(iCol, iRow)\<close> that succeeds lowers both by one.
\<close>

theorem kernel_counts_agree:
  "(counts_consistent s0 \<and> quiescent kHighsTiny s0 s \<longrightarrow>
      sum_list (mc_count_a s) = sum_list (mr_count s) \<and>
      int (num_live_col s) = sum_list (mc_count_a s) \<and>
      int (num_live_row s) = sum_list (mr_count s)) \<and>
   (colInsert kHighsTiny s iCol iRow v = Inr s1 \<and> rowInsert s1 iCol iRow = Inr s2 \<longrightarrow>
      sum_list (mc_count_a s2) = sum_list (mc_count_a s) + 1 \<and>
      sum_list (mr_count s2) = sum_list (mr_count s) + 1) \<and>
   (colDelete s iCol iRow = Inr (w, s3) \<and> rowDelete s3 iCol iRow = Inr s4 \<longrightarrow>
      sum_list (mc_count_a s4) = sum_list (mc_count_a s) - 1 \<and>
      sum_list (mr_count s4) = sum_list (mr_count s) - 1)"
proof (intro conjI impI)
  assume a: "counts_consistent s0 \<and> quiescent kHighsTiny s0 s"
  then have c: "counts_consistent s" using quiescent_consistent by blast
  then show "sum_list (mc_count_a s) = sum_list (mr_count s)"
    by (simp add: counts_consistent_def)
  show "int (num_live_col s) = sum_list (mc_count_a s)" using num_live_counts(1) [OF c] .
  show "int (num_live_row s) = sum_list (mr_count s)" using num_live_counts(2) [OF c] .
next
  assume "colInsert kHighsTiny s iCol iRow v = Inr s1 \<and> rowInsert s1 iCol iRow = Inr s2"
  then show "sum_list (mc_count_a s2) = sum_list (mc_count_a s) + 1"
    and "sum_list (mr_count s2) = sum_list (mr_count s) + 1"
    using insert_pair_sums [of kHighsTiny s iCol iRow v s1 s2] by simp_all
next
  assume "colDelete s iCol iRow = Inr (w, s3) \<and> rowDelete s3 iCol iRow = Inr s4"
  then show "sum_list (mc_count_a s4) = sum_list (mc_count_a s) - 1"
    and "sum_list (mr_count s4) = sum_list (mr_count s) - 1"
    using delete_pair_sums [of s iCol iRow w s3 s4] by simp_all
qed

theorem kernel_counts_agree_witness:
  "counts_consistent kernel_example \<and>
   colInsert (1 / 10 ^ 14) kernel_example 1 0 7 =
     Inr (kernel_example\<lparr>mc_count_a := [3, 2, 2],
            mc_index := [0, 1, 2, 0, 1, 0, 0, 0, 0, 2, 0, 0],
            mc_value := [2, 1, 4, 0, 3, 7, 0, 0, 5, 6, 0, 0]\<rparr>) \<and>
   rowInsert (kernel_example\<lparr>mc_count_a := [3, 2, 2],
            mc_index := [0, 1, 2, 0, 1, 0, 0, 0, 0, 2, 0, 0],
            mc_value := [2, 1, 4, 0, 3, 7, 0, 0, 5, 6, 0, 0]\<rparr>) 1 0 =
     Inr (kernel_example\<lparr>mc_count_a := [3, 2, 2],
            mc_index := [0, 1, 2, 0, 1, 0, 0, 0, 0, 2, 0, 0],
            mc_value := [2, 1, 4, 0, 3, 7, 0, 0, 5, 6, 0, 0],
            mr_count := [3, 2, 2],
            mr_index := [0, 2, 1, 0, 0, 1, 0, 0, 0, 2, 0, 0]\<rparr>) \<and>
   quiescent (1 / 10 ^ 14) kernel_example
     (kernel_example\<lparr>mc_count_a := [3, 2, 2],
            mc_index := [0, 1, 2, 0, 1, 0, 0, 0, 0, 2, 0, 0],
            mc_value := [2, 1, 4, 0, 3, 7, 0, 0, 5, 6, 0, 0],
            mr_count := [3, 2, 2],
            mr_index := [0, 2, 1, 0, 0, 1, 0, 0, 0, 2, 0, 0]\<rparr>) \<and>
   sum_list (mc_count_a kernel_example) = 6 \<and> sum_list (mr_count kernel_example) = 6 \<and>
   sum_list [3, 2, 2 :: int] = 7 \<and>
   num_live_col (kernel_example\<lparr>mc_count_a := [3, 2, 2],
            mc_index := [0, 1, 2, 0, 1, 0, 0, 0, 0, 2, 0, 0],
            mc_value := [2, 1, 4, 0, 3, 7, 0, 0, 5, 6, 0, 0],
            mr_count := [3, 2, 2],
            mr_index := [0, 2, 1, 0, 0, 1, 0, 0, 0, 2, 0, 0]\<rparr>) = 7 \<and>
   colDelete kernel_example 0 0 =
     Inr (2, kernel_example\<lparr>mc_count_a := [2, 1, 2],
               mc_index := [2, 1, 2, 0, 1, 0, 0, 0, 0, 2, 0, 0],
               mc_value := [4, 1, 4, 0, 3, 0, 0, 0, 5, 6, 0, 0]\<rparr>) \<and>
   rowDelete (kernel_example\<lparr>mc_count_a := [2, 1, 2],
               mc_index := [2, 1, 2, 0, 1, 0, 0, 0, 0, 2, 0, 0],
               mc_value := [4, 1, 4, 0, 3, 0, 0, 0, 5, 6, 0, 0]\<rparr>) 0 0 =
     Inr (kernel_example\<lparr>mc_count_a := [2, 1, 2],
               mc_index := [2, 1, 2, 0, 1, 0, 0, 0, 0, 2, 0, 0],
               mc_value := [4, 1, 4, 0, 3, 0, 0, 0, 5, 6, 0, 0],
               mr_count := [1, 2, 2],
               mr_index := [2, 2, 0, 0, 0, 1, 0, 0, 0, 2, 0, 0]\<rparr>) \<and>
   sum_list [2, 1, 2 :: int] = 5 \<and> sum_list [1, 2, 2 :: int] = 5"
proof -
  let ?s1 = "kernel_example\<lparr>mc_count_a := [3, 2, 2],
            mc_index := [0, 1, 2, 0, 1, 0, 0, 0, 0, 2, 0, 0],
            mc_value := [2, 1, 4, 0, 3, 7, 0, 0, 5, 6, 0, 0]\<rparr>"
  let ?s2 = "kernel_example\<lparr>mc_count_a := [3, 2, 2],
            mc_index := [0, 1, 2, 0, 1, 0, 0, 0, 0, 2, 0, 0],
            mc_value := [2, 1, 4, 0, 3, 7, 0, 0, 5, 6, 0, 0],
            mr_count := [3, 2, 2],
            mr_index := [0, 2, 1, 0, 0, 1, 0, 0, 0, 2, 0, 0]\<rparr>"
  let ?s3 = "kernel_example\<lparr>mc_count_a := [2, 1, 2],
               mc_index := [2, 1, 2, 0, 1, 0, 0, 0, 0, 2, 0, 0],
               mc_value := [4, 1, 4, 0, 3, 0, 0, 0, 5, 6, 0, 0]\<rparr>"
  let ?s4 = "kernel_example\<lparr>mc_count_a := [2, 1, 2],
               mc_index := [2, 1, 2, 0, 1, 0, 0, 0, 0, 2, 0, 0],
               mc_value := [4, 1, 4, 0, 3, 0, 0, 0, 5, 6, 0, 0],
               mr_count := [1, 2, 2],
               mr_index := [2, 2, 0, 0, 0, 1, 0, 0, 0, 2, 0, 0]\<rparr>"
  note T = kernel_counts_agree
  have c0: "counts_consistent kernel_example"
    by (simp add: counts_consistent_def kernel_example_def)
  have e1: "colInsert (1 / 10 ^ 14) kernel_example 1 0 7 = Inr ?s1" by code_simp
  have e2: "rowInsert ?s1 1 0 = Inr ?s2" by code_simp
  have e3: "colDelete kernel_example 0 0 = Inr (2, ?s3)" by code_simp
  have e4: "rowDelete ?s3 0 0 = Inr ?s4" by code_simp
  have q: "quiescent (1 / 10 ^ 14) kernel_example ?s2"
    using quiescent.insert_pair [OF quiescent.initial e1 e2] .
  have n: "sum_list (mc_count_a kernel_example) = 6" "sum_list (mr_count kernel_example) = 6"
    by (simp_all add: kernel_example_def)
  have a: "int (num_live_col ?s2) = sum_list (mc_count_a ?s2)"
    using T [of kernel_example "1 / 10 ^ 14" ?s2, THEN conjunct1, THEN mp, OF conjI [OF c0 q]]
    by simp
  have b: "sum_list (mc_count_a ?s2) = sum_list (mc_count_a kernel_example) + 1"
    using T [where s = kernel_example and kHighsTiny = "1 / 10 ^ 14" and iCol = 1 and iRow = 0
        and v = 7 and ?s1.0 = ?s1 and ?s2.0 = ?s2, THEN conjunct2, THEN conjunct1, THEN mp,
        OF conjI [OF e1 e2]]
    by simp
  have d: "sum_list (mc_count_a ?s4) = sum_list (mc_count_a kernel_example) - 1"
    using T [where s = kernel_example and iCol = 0 and iRow = 0 and w = 2 and ?s3.0 = ?s3
        and ?s4.0 = ?s4, THEN conjunct2, THEN conjunct2, THEN mp, OF conjI [OF e3 e4]]
    by simp
  have l: "num_live_col ?s2 = 7" using a b n by simp
  show ?thesis using c0 e1 e2 e3 e4 q n l by simp
qed

section \<open>Properties of the member functions declared in the header\<close>

text \<open>
  C8. \<open>setPivotThreshold\<close> and \<open>setMinAbsPivot\<close> return true exactly for a value in
  (0, 0.5]; an accepted value is stored in \<open>pivot_threshold\<close>, respectively
  \<open>pivot_tolerance\<close>, and nothing else changes; a rejected call leaves the object as it
  was.
\<close>

theorem set_pivot_accept:
  "(fst (setPivotThreshold s v) \<longleftrightarrow> 0 < v \<and> v \<le> 1 / 2) \<and>
   (fst (setPivotThreshold s v) \<longrightarrow> snd (setPivotThreshold s v) = s\<lparr>pivot_threshold := v\<rparr>) \<and>
   (\<not> fst (setPivotThreshold s v) \<longrightarrow> snd (setPivotThreshold s v) = s) \<and>
   (fst (setMinAbsPivot s v) \<longleftrightarrow> 0 < v \<and> v \<le> 1 / 2) \<and>
   (fst (setMinAbsPivot s v) \<longrightarrow> snd (setMinAbsPivot s v) = s\<lparr>pivot_tolerance := v\<rparr>) \<and>
   (\<not> fst (setMinAbsPivot s v) \<longrightarrow> snd (setMinAbsPivot s v) = s)"
  by (simp add: setPivotThreshold_def setMinAbsPivot_def)

theorem set_pivot_accept_witness:
  "setPivotThreshold kernel_example (1 / 4) = (True, kernel_example\<lparr>pivot_threshold := 1 / 4\<rparr>) \<and>
   setPivotThreshold kernel_example (1 / 2) = (True, kernel_example\<lparr>pivot_threshold := 1 / 2\<rparr>) \<and>
   setPivotThreshold kernel_example 0 = (False, kernel_example) \<and>
   setPivotThreshold kernel_example (3 / 4) = (False, kernel_example) \<and>
   setMinAbsPivot kernel_example (1 / 10 ^ 9) =
     (True, kernel_example\<lparr>pivot_tolerance := 1 / 10 ^ 9\<rparr>) \<and>
   setMinAbsPivot kernel_example (- 1) = (False, kernel_example) \<and>
   setMinAbsPivot kernel_example 1 = (False, kernel_example)"
  using set_pivot_accept [of kernel_example "1 / 4"] set_pivot_accept [of kernel_example "1 / 2"]
    set_pivot_accept [of kernel_example 0] set_pivot_accept [of kernel_example "3 / 4"]
    set_pivot_accept [of kernel_example "1 / 10 ^ 9"] set_pivot_accept [of kernel_example "- 1"]
    set_pivot_accept [of kernel_example 1]
  by (simp add: prod_eq_iff)

text \<open>
  C3. For a pivot row inside \<open>aq\<close>: when \<open>|aq[iRow]| < pivot_tolerance\<close>, \<open>update\<close> returns
  the hint reinvert and the object unchanged, so L, U and the update buffer are as before;
  when \<open>|aq[iRow]| \<ge> pivot_tolerance\<close>, the result is that of the in-place modification.
\<close>

theorem update_pivot_check:
  "(in_range aq iRow \<and> \<bar>aq ! nat iRow\<bar> < pivot_tolerance s \<longrightarrow>
      update incorporate reinvert s aq ep iRow hint = Inr (s, reinvert)) \<and>
   (in_range aq iRow \<and> pivot_tolerance s \<le> \<bar>aq ! nat iRow\<bar> \<longrightarrow>
      update incorporate reinvert s aq ep iRow hint = Inr (incorporate s aq ep iRow hint))"
  by (simp add: update_def)


theorem update_pivot_check_witness:
  "update (\<lambda>s aq ep iRow hint.
       (s\<lparr>pf_pivot_index := pf_pivot_index s @ [iRow],
          pf_pivot_value := pf_pivot_value s @ [aq ! nat iRow]\<rparr>, hint))
     1 kernel_example [1 / 10 ^ 12, 2, 0] [1, 0, 0] 0 0 = Inr (kernel_example, 1) \<and>
   update (\<lambda>s aq ep iRow hint.
       (s\<lparr>pf_pivot_index := pf_pivot_index s @ [iRow],
          pf_pivot_value := pf_pivot_value s @ [aq ! nat iRow]\<rparr>, hint))
     1 kernel_example [1 / 10 ^ 12, 2, 0] [0, 1, 0] 1 0 =
     Inr (kernel_example\<lparr>pf_pivot_index := [1], pf_pivot_value := [2]\<rparr>, 0)"
  using update_pivot_check [of "[1 / 10 ^ 12, 2, 0]" 0 kernel_example
      "\<lambda>s aq ep iRow hint.
       (s\<lparr>pf_pivot_index := pf_pivot_index s @ [iRow],
          pf_pivot_value := pf_pivot_value s @ [aq ! nat iRow]\<rparr>, hint)" 1 "[1, 0, 0]" 0]
    update_pivot_check [of "[1 / 10 ^ 12, 2, 0]" 1 kernel_example
      "\<lambda>s aq ep iRow hint.
       (s\<lparr>pf_pivot_index := pf_pivot_index s @ [iRow],
          pf_pivot_value := pf_pivot_value s @ [aq ! nat iRow]\<rparr>, hint)" 1 "[0, 1, 0]" 0]
  by (simp add: in_range_def kernel_example_def)

end
